theory Spec2Isabelle
  imports Complex_Main "HOL-Library.Multiset"
begin

section \<open>The sonnet puzzle of \<^verbatim>\<open>src/app.js\<close>\<close>

text \<open>
  \<^verbatim>\<open>src/app.js\<close> holds two listings of the same program. The second one (from line 779 on)
  is the one with \<^verbatim>\<open>hasCheckedAndPassed\<close>, \<^verbatim>\<open>isButtonDisabled\<close>, \<^verbatim>\<open>clearSlotState\<close> and
  \<^verbatim>\<open>shuffleArray\<close>; it is the listing modelled here under the source's names. Where the first
  listing differs in a way that matters, its function is modelled next to it with the suffix
  \<open>_v1\<close>.

  All module variables of the listing are one record, and every function that assigns to them
  takes the record and returns it updated. The values the browser supplies are arguments:
  the clock (\<^verbatim>\<open>Date.now()\<close>, milliseconds, an integer), the draws of \<^verbatim>\<open>Math.random()\<close>
  (already multiplied and floored, as the source uses them), the slot that \<^verbatim>\<open>getSlotAt(x, y)\<close>
  finds at the pointer and the button the pointer is in. Drawing on the canvas is left out;
  what \<^verbatim>\<open>render\<close> does to the module variables (through \<^verbatim>\<open>getShakeOffset\<close>) is kept.
\<close>

subsection \<open>Slots and JavaScript arrays\<close>

type_synonym line = string

text \<open>A slot holds \<^verbatim>\<open>null\<close> (\<open>None\<close>) or a string.\<close>

type_synonym slot = "line option"

text \<open>JavaScript truthiness of a slot value: \<^verbatim>\<open>null\<close> and the empty string are falsy.\<close>

fun truthy :: "slot \<Rightarrow> bool" where
  "truthy None = False"
| "truthy (Some l) = (l \<noteq> [])"

text \<open>
  \<^verbatim>\<open>slots[i]\<close>: reading past the end gives \<^verbatim>\<open>undefined\<close>, which is falsy and different from
  every string, as \<^verbatim>\<open>null\<close> is; both are \<open>None\<close> here.
\<close>

definition slot_at :: "slot list \<Rightarrow> nat \<Rightarrow> slot" where
  "slot_at xs i = (if i < length xs then xs ! i else None)"

text \<open>\<^verbatim>\<open>slots[i] = v\<close>: writing past the end extends the array, the holes reading as above.\<close>

definition set_slot :: "slot list \<Rightarrow> nat \<Rightarrow> slot \<Rightarrow> slot list" where
  "set_slot xs i v =
     (if i < length xs then xs[i := v] else xs @ replicate (i - length xs) None @ [v])"

subsection \<open>Module variables\<close>

text \<open>
  \<^verbatim>\<open>hoveredSlotIndex\<close> and the result of \<^verbatim>\<open>getSlotAt\<close> are \<open>None\<close> for \<^verbatim>\<open>-1\<close>.
  \<^verbatim>\<open>shakeAnimationFrame\<close> is \<open>True\<close> while it holds a frame request and \<open>False\<close> for \<^verbatim>\<open>null\<close>.
  The pixel positions (\<^verbatim>\<open>dragOffset\<close>, \<^verbatim>\<open>dragClickOffset\<close>, \<^verbatim>\<open>dragStartPos\<close>) and \<^verbatim>\<open>hasDragged\<close>
  are only drawn or never read, and are not part of the record. \<open>alerts\<close> is not a variable of
  the source: it counts the calls of \<^verbatim>\<open>alert\<close>, the one signal the program gives its user.
\<close>

record game =
  currentSonnet :: "line list option"
  slots :: "slot list"
  draggedLine :: slot
  draggedSlotIndex :: "nat option"
  isDragging :: bool
  hoveredSlotIndex :: "nat option"
  shakingSlots :: "nat set"
  shakeAnimationFrame :: bool
  shakeStartTime :: "int option"
  incorrectSlots :: "nat set"
  checkedSlots :: "nat set"
  checkOrderCount :: nat
  hasCheckedAndPassed :: bool
  alerts :: nat

text \<open>The initialisers of the module variables.\<close>

definition load_state :: game where
  "load_state =
     \<lparr>currentSonnet = None, slots = replicate 14 None, draggedLine = None,
      draggedSlotIndex = None, isDragging = False, hoveredSlotIndex = None,
      shakingSlots = {}, shakeAnimationFrame = False, shakeStartTime = None,
      incorrectSlots = {}, checkedSlots = {}, checkOrderCount = 0,
      hasCheckedAndPassed = False, alerts = 0\<rparr>"

subsection \<open>The shake timer and \<^verbatim>\<open>render\<close>\<close>

text \<open>
  \<^verbatim>\<open>getShakeOffset()\<close> with \<^verbatim>\<open>Date.now()\<close> as an argument. \<^verbatim>\<open>!shakeStartTime\<close> holds for
  \<^verbatim>\<open>null\<close> and for the number 0. The function both assigns to the module variables and
  returns a number; the two are given by two definitions with the same case analysis, so
  that the callers that only use the assignments do not depend on the sine. The number is a
  real here, where the source computes in double precision.
\<close>

definition getShakeOffset_state :: "int \<Rightarrow> game \<Rightarrow> game" where
  "getShakeOffset_state now s =
     (case shakeStartTime s of
        None \<Rightarrow> s
      | Some t \<Rightarrow>
          if t = 0 then s
          else
            let elapsed = now - t; duration = 500 in
            if elapsed \<ge> duration then
              s\<lparr>shakingSlots := {}, shakeStartTime := None, shakeAnimationFrame := False\<rparr>
            else s)"

definition getShakeOffset_value :: "int \<Rightarrow> game \<Rightarrow> real" where
  "getShakeOffset_value now s =
     (case shakeStartTime s of
        None \<Rightarrow> 0
      | Some t \<Rightarrow>
          if t = 0 then 0
          else
            let elapsed = now - t; duration = 500 in
            if elapsed \<ge> duration then 0
            else
              let frequency = 20;
                  amplitude = 10 * (1 - real_of_int elapsed / real_of_int duration)
              in sin (real_of_int elapsed * frequency * pi / 1000) * amplitude)"

definition getShakeOffset :: "int \<Rightarrow> game \<Rightarrow> real \<times> game" where
  "getShakeOffset now s = (getShakeOffset_value now s, getShakeOffset_state now s)"

text \<open>
  The offset \<^verbatim>\<open>render\<close> uses for slot \<open>i\<close>:
  \<^verbatim>\<open>shakingSlots.has(i) ? getShakeOffset() : 0\<close>.
\<close>

definition offsetFor :: "nat \<Rightarrow> int \<Rightarrow> game \<Rightarrow> real \<times> game" where
  "offsetFor i now s = (if i \<in> shakingSlots s then getShakeOffset now s else (0, s))"

text \<open>
  What \<^verbatim>\<open>render()\<close> does to the module variables: its loop over the slots asks for the
  offset of each slot as above, and runs a second time while a line is dragged. One reading
  of the clock serves the whole call.
\<close>

definition render_slots :: "int \<Rightarrow> game \<Rightarrow> game" where
  "render_slots now s =
     foldl (\<lambda>s' i. if i \<in> shakingSlots s' then getShakeOffset_state now s' else s')
       s [0..<length (slots s)]"

definition render :: "int \<Rightarrow> game \<Rightarrow> game" where
  "render now s =
     (let s1 = render_slots now s
      in if isDragging s1 then render_slots now s1 else s1)"

subsection \<open>Buttons\<close>

datatype button = checkOrder_key | newSonnet_key

definition hasAtLeastOneLinePlaced :: "game \<Rightarrow> bool" where
  "hasAtLeastOneLinePlaced s = list_ex truthy (slots s)"

definition isOrderCorrect :: "game \<Rightarrow> bool" where
  "isOrderCorrect s =
     (case currentSonnet s of
        None \<Rightarrow> False
      | Some cs \<Rightarrow>
          cs \<noteq> [] \<and>
          list_all (\<lambda>i. slot_at (slots s) i = Some (cs ! i)) [0..<length cs] \<and>
          list_all (\<lambda>i. \<not> truthy (slot_at (slots s) i)) [length cs..<length (slots s)])"

fun isButtonDisabled :: "button \<Rightarrow> game \<Rightarrow> bool" where
  "isButtonDisabled checkOrder_key s = (\<not> hasAtLeastOneLinePlaced s)"
| "isButtonDisabled newSonnet_key s = (\<not> isOrderCorrect s \<or> \<not> hasCheckedAndPassed s)"

subsection \<open>Starting a puzzle\<close>

text \<open>
  \<^verbatim>\<open>String.prototype.trim\<close> on the 8-bit characters of \<open>string\<close>: tab, line feed, vertical
  tab, form feed, carriage return, space and the no-break space.
\<close>

definition is_space :: "char \<Rightarrow> bool" where
  "is_space c = (c \<in> set [CHR 0x09, CHR 0x0A, CHR 0x0B, CHR 0x0C, CHR 0x0D, CHR 0x20, CHR 0xA0])"

definition trim :: "string \<Rightarrow> string" where
  "trim l = rev (dropWhile is_space (rev (dropWhile is_space l)))"

text \<open>\<^verbatim>\<open>s.split('\n')\<close>.\<close>

fun split_lines :: "string \<Rightarrow> string list" where
  "split_lines [] = [[]]"
| "split_lines (c # cs) =
     (if c = CHR 0x0A then [] # split_lines cs
      else (case split_lines cs of [] \<Rightarrow> [[c]] | l # ls \<Rightarrow> (c # l) # ls))"

text \<open>
  \<^verbatim>\<open>getRandomSonnet()\<close>. The array \<^verbatim>\<open>sonnets\<close> comes from \<^verbatim>\<open>data.js\<close>, which is not part of the
  source at hand, and is an argument; \<open>r\<close> is the value of
  \<^verbatim>\<open>Math.floor(Math.random() * validSonnets.length)\<close>.
\<close>

definition validSonnets :: "string list \<Rightarrow> string list" where
  "validSonnets sonnets =
     filter (\<lambda>sonnet. length (filter (\<lambda>l. trim l \<noteq> []) (split_lines sonnet)) \<ge> 14) sonnets"

text \<open>
  \<^verbatim>\<open>selectedSonnet.split('\n').map(line => line.trim()).filter(line => line !== '').slice(0, 14)\<close>.
\<close>

definition sonnet_lines :: "string \<Rightarrow> line list" where
  "sonnet_lines selectedSonnet =
     take 14 (filter (\<lambda>l. l \<noteq> []) (map trim (split_lines selectedSonnet)))"

definition getRandomSonnet :: "string list \<Rightarrow> nat \<Rightarrow> line list option" where
  "getRandomSonnet sonnets r =
     (if validSonnets sonnets = [] then None
      else Some (sonnet_lines (validSonnets sonnets ! r)))"

text \<open>\<^verbatim>\<open>[a[i], a[j]] = [a[j], a[i]]\<close>.\<close>

definition swap :: "'a list \<Rightarrow> nat \<Rightarrow> nat \<Rightarrow> 'a list" where
  "swap a i j = a[i := a ! j, j := a ! i]"

text \<open>
  \<^verbatim>\<open>shuffleArray(arr)\<close>: the loop runs \<open>i\<close> from \<^verbatim>\<open>a.length - 1\<close> down to 1; \<open>rnd i\<close> is the
  value of \<^verbatim>\<open>Math.floor(Math.random() * (i + 1))\<close> drawn in the iteration for \<open>i\<close>.
\<close>

fun shuffle_loop :: "(nat \<Rightarrow> nat) \<Rightarrow> nat \<Rightarrow> 'a list \<Rightarrow> 'a list" where
  "shuffle_loop rnd 0 a = a"
| "shuffle_loop rnd (Suc i) a = shuffle_loop rnd i (swap a (Suc i) (rnd (Suc i)))"

definition shuffleArray :: "(nat \<Rightarrow> nat) \<Rightarrow> 'a list \<Rightarrow> 'a list" where
  "shuffleArray rnd arr = shuffle_loop rnd (length arr - 1) arr"

text \<open>The random draws of one call of \<^verbatim>\<open>initGame\<close>.\<close>

record draws =
  pick :: nat
  lineDraws :: "nat \<Rightarrow> nat"
  slotDraws :: "nat \<Rightarrow> nat"

text \<open>
  \<^verbatim>\<open>shuffledLines.forEach((line, i) => { slots[slotIndices[i]] = line; })\<close> on a fresh
  \<^verbatim>\<open>Array(14).fill(null)\<close>.
\<close>

definition place_lines :: "line list \<Rightarrow> nat list \<Rightarrow> slot list" where
  "place_lines shuffledLines slotIndices =
     foldl (\<lambda>sl i. set_slot sl (slotIndices ! i) (Some (shuffledLines ! i)))
       (replicate 14 None) [0..<length shuffledLines]"

text \<open>
  \<^verbatim>\<open>initGame()\<close>. When no sonnet is found the source shows an alert and returns, after the
  assignment to \<^verbatim>\<open>currentSonnet\<close>.
\<close>

definition initGame :: "string list \<Rightarrow> draws \<Rightarrow> int \<Rightarrow> game \<Rightarrow> game" where
  "initGame sonnets d now s =
     (case getRandomSonnet sonnets (pick d) of
        None \<Rightarrow> s\<lparr>currentSonnet := None, alerts := alerts s + 1\<rparr>
      | Some cs \<Rightarrow>
          let shuffledLines = shuffleArray (lineDraws d) cs;
              slotIndices = shuffleArray (slotDraws d) [0..<14]
          in render now
               (s\<lparr>currentSonnet := Some cs,
                  slots := place_lines shuffledLines slotIndices,
                  incorrectSlots := {}, checkedSlots := {},
                  checkOrderCount := 0, hasCheckedAndPassed := False\<rparr>))"

subsection \<open>Checking the order\<close>

text \<open>The test \<^verbatim>\<open>wrong\<close> of the loop in \<^verbatim>\<open>checkOrder\<close>, for slot \<open>i\<close>.\<close>

definition wrong :: "line list \<Rightarrow> slot list \<Rightarrow> nat \<Rightarrow> bool" where
  "wrong cs sl i =
     (let content = slot_at sl i;
          expected = (if i < length cs then Some (cs ! i) else None)
      in \<not> truthy content \<or> content \<noteq> expected)"

text \<open>The set \<^verbatim>\<open>slotsToShake\<close> that the loop builds.\<close>

definition slotsToShake :: "line list \<Rightarrow> slot list \<Rightarrow> nat set" where
  "slotsToShake cs sl = set (filter (wrong cs sl) [0..<length sl])"

definition checkOrder :: "int \<Rightarrow> game \<Rightarrow> game" where
  "checkOrder now s =
     (case currentSonnet s of
        None \<Rightarrow> s
      | Some cs \<Rightarrow>
          let sl = slots s;
              shake = slotsToShake cs sl;
              s1 = s\<lparr>checkOrderCount := checkOrderCount s + 1,
                     incorrectSlots := set (filter (\<lambda>i. wrong cs sl i \<and> truthy (slot_at sl i)) [0..<length sl]),
                     checkedSlots := checkedSlots s \<union> set (filter (\<lambda>i. truthy (slot_at sl i)) [0..<length sl])\<rparr>
          in if shake \<noteq> {} then
               let s2 = s1\<lparr>hasCheckedAndPassed := False, shakingSlots := shake,
                           shakeStartTime := Some now\<rparr>
               in if \<not> shakeAnimationFrame s2 then (render now s2)\<lparr>shakeAnimationFrame := True\<rparr>
                  else s2
             else render now (s1\<lparr>hasCheckedAndPassed := True, incorrectSlots := {}\<rparr>))"

definition handleButtonClick :: "string list \<Rightarrow> draws \<Rightarrow> int \<Rightarrow> button \<Rightarrow> game \<Rightarrow> game" where
  "handleButtonClick sonnets d now buttonKey s =
     (case buttonKey of
        checkOrder_key \<Rightarrow> checkOrder now s
      | newSonnet_key \<Rightarrow> initGame sonnets d now s)"

subsection \<open>Pointer events\<close>

text \<open>\<^verbatim>\<open>clearSlotState(...indices)\<close>.\<close>

definition clearSlotState :: "nat list \<Rightarrow> game \<Rightarrow> game" where
  "clearSlotState indices s =
     foldl (\<lambda>s' i. s'\<lparr>incorrectSlots := incorrectSlots s' - {i},
                       checkedSlots := checkedSlots s' - {i}\<rparr>) s indices"

text \<open>
  \<^verbatim>\<open>handlePointerDown(e)\<close>: \<open>slotIndex\<close> is the value of \<^verbatim>\<open>getSlotAt(x, y)\<close> and \<open>hit\<close> the first
  button of \<^verbatim>\<open>getButtons()\<close> that contains the point, if any.
\<close>

definition handlePointerDown ::
  "string list \<Rightarrow> draws \<Rightarrow> int \<Rightarrow> nat option \<Rightarrow> button option \<Rightarrow> game \<Rightarrow> game" where
  "handlePointerDown sonnets d now slotIndex hit s =
     (let s1 = (case slotIndex of
                  None \<Rightarrow> s
                | Some i \<Rightarrow>
                    if truthy (slot_at (slots s) i) then
                      s\<lparr>draggedLine := slot_at (slots s) i, draggedSlotIndex := Some i,
                        isDragging := True\<rparr>
                    else s)
      in case hit of
           None \<Rightarrow> s1
         | Some key \<Rightarrow>
             if \<not> isButtonDisabled key s1 then handleButtonClick sonnets d now key s1 else s1)"

definition handlePointerMove :: "int \<Rightarrow> nat option \<Rightarrow> game \<Rightarrow> game" where
  "handlePointerMove now slotIndex s =
     (if \<not> isDragging s then s else render now (s\<lparr>hoveredSlotIndex := slotIndex\<rparr>))"

text \<open>The assignments of \<^verbatim>\<open>handlePointerUp\<close> to \<^verbatim>\<open>slots\<close> when the line lands on another slot.\<close>

definition drop_slots :: "slot list \<Rightarrow> slot \<Rightarrow> nat \<Rightarrow> nat \<Rightarrow> slot list" where
  "drop_slots sl carried src k =
     (if truthy (slot_at sl k) then set_slot (set_slot sl k carried) src (slot_at sl k)
      else set_slot (set_slot sl src None) k carried)"

definition handlePointerUp :: "int \<Rightarrow> nat option \<Rightarrow> game \<Rightarrow> game" where
  "handlePointerUp now slotIndex s =
     (if isDragging s \<and> truthy (draggedLine s) then
        let s1 = (case (slotIndex, draggedSlotIndex s) of
                    (Some k, Some src) \<Rightarrow>
                      if src \<noteq> k then
                        (clearSlotState [k, src]
                           (s\<lparr>slots := drop_slots (slots s) (draggedLine s) src k\<rparr>))
                        \<lparr>hasCheckedAndPassed := False\<rparr>
                      else s
                  | _ \<Rightarrow> s)
        in render now
             (s1\<lparr>isDragging := False, hoveredSlotIndex := None, draggedLine := None,
                 draggedSlotIndex := None\<rparr>)
      else s)"

text \<open>\<^verbatim>\<open>animateShake()\<close>, the frame callback, and \<^verbatim>\<open>handleResize()\<close>.\<close>

definition animateShake :: "int \<Rightarrow> game \<Rightarrow> game" where
  "animateShake now s =
     (if shakingSlots s = {} then s\<lparr>shakeAnimationFrame := False\<rparr>
      else (render now s)\<lparr>shakeAnimationFrame := True\<rparr>)"

definition handleResize :: "int \<Rightarrow> game \<Rightarrow> game" where
  "handleResize now s = render now s"

subsection \<open>The first listing\<close>

text \<open>
  \<^verbatim>\<open>handlePointerUp\<close> of the first listing (lines 607 to 660). That listing has no
  \<^verbatim>\<open>hasCheckedAndPassed\<close>; the field is left as it is. Its \<^verbatim>\<open>render\<close> asks for the shake
  offsets in the same two loops.
\<close>

definition handlePointerUp_v1 :: "int \<Rightarrow> nat option \<Rightarrow> game \<Rightarrow> game" where
  "handlePointerUp_v1 now slotIndex s =
     (if isDragging s \<and> truthy (draggedLine s) then
        let sl = slots s;
            s1 = (case slotIndex of
                    Some k \<Rightarrow>
                      (if draggedSlotIndex s \<noteq> None \<and> draggedSlotIndex s \<noteq> Some k then
                         let src = the (draggedSlotIndex s) in
                         if truthy (slot_at sl k) then
                           s\<lparr>slots := set_slot (set_slot sl k (draggedLine s)) src (slot_at sl k),
                             incorrectSlots := incorrectSlots s - {k} - {src},
                             checkedSlots := checkedSlots s - {k} - {src}\<rparr>
                         else
                           s\<lparr>slots := set_slot (set_slot sl src None) k (draggedLine s),
                             incorrectSlots := incorrectSlots s - {src} - {k},
                             checkedSlots := checkedSlots s - {k} - {src}\<rparr>
                       else
                         s\<lparr>slots := set_slot sl k (draggedLine s),
                           incorrectSlots := incorrectSlots s - {k},
                           checkedSlots := checkedSlots s - {k}\<rparr>)
                  | None \<Rightarrow>
                      (case draggedSlotIndex s of
                         Some src \<Rightarrow>
                           s\<lparr>slots := set_slot sl src None,
                             incorrectSlots := incorrectSlots s - {src},
                             checkedSlots := checkedSlots s - {src}\<rparr>
                       | None \<Rightarrow> s))
        in render now
             (s1\<lparr>isDragging := False, hoveredSlotIndex := None, draggedLine := None,
                 draggedSlotIndex := None\<rparr>)
      else s)"

text \<open>
  The test of the first listing for the New Sonnet button, written out in its \<^verbatim>\<open>render\<close>
  and its \<^verbatim>\<open>handlePointerDown\<close>: \<^verbatim>\<open>isDisabled = !isOrderCorrect()\<close>.
\<close>

definition newSonnet_disabled_v1 :: "game \<Rightarrow> bool" where
  "newSonnet_disabled_v1 s = (\<not> isOrderCorrect s)"

subsection \<open>Where the pointer is\<close>

text \<open>
  The handlers above take the slot and the button under the pointer as arguments. These are
  the functions of the listing that find them from the coordinates. \<^verbatim>\<open>isMobile()\<close> and
  \<^verbatim>\<open>canvas.width\<close> are values of the browser; coordinates are reals here.
\<close>

record layout =
  mobile :: bool
  canvas_width :: real

definition SLOT_MARGIN :: real where "SLOT_MARGIN = 5"
definition SLOTS_PER_ROW :: nat where "SLOTS_PER_ROW = 1"
definition SLOT_START_X :: real where "SLOT_START_X = 28"
definition BUTTON_MARGIN :: real where "BUTTON_MARGIN = 10"

definition getSlotStartY :: "layout \<Rightarrow> real" where
  "getSlotStartY lay = (if mobile lay then 100 else 90)"

definition getButtonY :: "layout \<Rightarrow> real" where
  "getButtonY lay = (if mobile lay then 15 else 20)"

definition getButtonWidth :: "layout \<Rightarrow> real" where
  "getButtonWidth lay = (if mobile lay then 110 else 130)"

definition getButtonHeight :: "layout \<Rightarrow> real" where
  "getButtonHeight lay = (if mobile lay then 40 else 35)"

definition getSlotWidth :: "layout \<Rightarrow> real" where
  "getSlotWidth lay = (if mobile lay then canvas_width lay - 44 else 480)"

definition getSlotHeight :: "layout \<Rightarrow> real" where
  "getSlotHeight lay = (if mobile lay then 45 else 40)"

definition getSlotPosition :: "layout \<Rightarrow> nat \<Rightarrow> real \<times> real" where
  "getSlotPosition lay index =
     (let row = index div SLOTS_PER_ROW; col = index mod SLOTS_PER_ROW
      in (SLOT_START_X + real col * (getSlotWidth lay + SLOT_MARGIN),
          getSlotStartY lay + real row * (getSlotHeight lay + SLOT_MARGIN)))"

text \<open>\<^verbatim>\<open>getSlotAt(x, y)\<close>, with \<^verbatim>\<open>slots.length\<close> as \<open>n\<close>; \<open>None\<close> is \<^verbatim>\<open>-1\<close>.\<close>

definition getSlotAt :: "layout \<Rightarrow> nat \<Rightarrow> real \<Rightarrow> real \<Rightarrow> nat option" where
  "getSlotAt lay n x y =
     find (\<lambda>i. let pos = getSlotPosition lay i
               in x \<ge> fst pos \<and> x \<le> fst pos + getSlotWidth lay \<and>
                  y \<ge> snd pos \<and> y \<le> snd pos + getSlotHeight lay)
       [0..<n]"

text \<open>A button rectangle: \<^verbatim>\<open>x\<close>, \<^verbatim>\<open>y\<close>, \<^verbatim>\<open>width\<close>, \<^verbatim>\<open>height\<close>.\<close>

type_synonym rect = "real \<times> real \<times> real \<times> real"

definition getButtons :: "layout \<Rightarrow> (button \<times> rect) list" where
  "getButtons lay =
     (let by = getButtonY lay; bw = getButtonWidth lay; bh = getButtonHeight lay
      in [(checkOrder_key, (SLOT_START_X, by, bw, bh)),
          (newSonnet_key, (SLOT_START_X + bw + BUTTON_MARGIN, by, bw, bh))])"

fun isPointInButton :: "real \<Rightarrow> real \<Rightarrow> rect \<Rightarrow> bool" where
  "isPointInButton x y (bx, by, bw, bh) =
     (x \<ge> bx \<and> x \<le> bx + bw \<and> y \<ge> by \<and> y \<le> by + bh)"

text \<open>
  The button the loop over \<^verbatim>\<open>Object.entries(getButtons())\<close> in \<^verbatim>\<open>handlePointerDown\<close> stops
  at.
\<close>

definition button_at :: "layout \<Rightarrow> real \<Rightarrow> real \<Rightarrow> button option" where
  "button_at lay x y = map_option fst (find (\<lambda>(key, button). isPointInButton x y button) (getButtons lay))"

subsection \<open>Events\<close>

text \<open>
  The listeners the listing registers, and the frame callback. A frame callback runs only
  while a request is held in \<^verbatim>\<open>shakeAnimationFrame\<close>.
\<close>

datatype event =
    PointerDown draws int "nat option" "button option"
  | PointerMove int "nat option"
  | PointerUp int "nat option"
  | AnimationFrame int
  | Resize int

fun step :: "string list \<Rightarrow> game \<Rightarrow> event \<Rightarrow> game" where
  "step sonnets s (PointerDown d now slotIndex hit) = handlePointerDown sonnets d now slotIndex hit s"
| "step sonnets s (PointerMove now slotIndex) = handlePointerMove now slotIndex s"
| "step sonnets s (PointerUp now slotIndex) = handlePointerUp now slotIndex s"
| "step sonnets s (AnimationFrame now) = (if shakeAnimationFrame s then animateShake now s else s)"
| "step sonnets s (Resize now) = handleResize now s"

definition run :: "string list \<Rightarrow> game \<Rightarrow> event list \<Rightarrow> game" where
  "run sonnets s es = foldl (step sonnets) s es"

text \<open>The last line of the listing calls \<^verbatim>\<open>initGame()\<close> once, on the initialised variables.\<close>

definition start :: "string list \<Rightarrow> draws \<Rightarrow> int \<Rightarrow> game" where
  "start sonnets d now = initGame sonnets d now load_state"

text \<open>
  What the browser guarantees of the values it supplies: \<^verbatim>\<open>Math.random()\<close> is below 1, so the
  floored draws are in range, and \<^verbatim>\<open>getSlotAt\<close> returns \<^verbatim>\<open>-1\<close> or an index below
  \<^verbatim>\<open>slots.length\<close>.
\<close>

definition draws_ok :: "string list \<Rightarrow> draws \<Rightarrow> bool" where
  "draws_ok sonnets d \<longleftrightarrow>
     (validSonnets sonnets \<noteq> [] \<longrightarrow> pick d < length (validSonnets sonnets)) \<and>
     list_all (\<lambda>i. lineDraws d i \<le> i \<and> slotDraws d i \<le> i) [0..<14]"

definition hit_ok :: "game \<Rightarrow> nat option \<Rightarrow> bool" where
  "hit_ok s slotIndex = (case slotIndex of None \<Rightarrow> True | Some i \<Rightarrow> i < length (slots s))"

text \<open>An event that clicks the New Sonnet button.\<close>

fun restarts :: "event \<Rightarrow> bool" where
  "restarts (PointerDown d now slotIndex (Some newSonnet_key)) = True"
| "restarts _ = False"

text \<open>
  An event the browser can deliver in state \<open>s\<close>, with the New Sonnet button pressed only
  between drags: its rectangle lies above the slots, so that the press is on no slot, and no
  line is being carried.
\<close>

fun admissible :: "string list \<Rightarrow> game \<Rightarrow> event \<Rightarrow> bool" where
  "admissible sonnets s (PointerDown d now slotIndex hit) =
     (hit_ok s slotIndex \<and> draws_ok sonnets d \<and>
      (hit = Some newSonnet_key \<longrightarrow> \<not> isDragging s \<and> slotIndex = None))"
| "admissible sonnets s (PointerMove now slotIndex) = hit_ok s slotIndex"
| "admissible sonnets s (PointerUp now slotIndex) = hit_ok s slotIndex"
| "admissible sonnets s (AnimationFrame now) = True"
| "admissible sonnets s (Resize now) = True"

fun trace_ok :: "string list \<Rightarrow> game \<Rightarrow> event list \<Rightarrow> bool" where
  "trace_ok sonnets s [] = True"
| "trace_ok sonnets s (e # es) = (admissible sonnets s e \<and> trace_ok sonnets (step sonnets s e) es)"

subsection \<open>Properties of a state\<close>

text \<open>A drag is in progress that carries the line of slot \<open>src\<close>.\<close>

definition session_from :: "game \<Rightarrow> nat \<Rightarrow> bool" where
  "session_from s src \<longleftrightarrow>
     isDragging s \<and> draggedSlotIndex s = Some src \<and> truthy (draggedLine s) \<and>
     draggedLine s = slot_at (slots s) src"

text \<open>No drag is in progress, or the line carried is the one in the slot it was taken from.\<close>

definition session_ok :: "game \<Rightarrow> bool" where
  "session_ok s \<longleftrightarrow>
     (isDragging s \<and> truthy (draggedLine s) \<longrightarrow>
        (case draggedSlotIndex s of
           None \<Rightarrow> True
         | Some src \<Rightarrow> draggedLine s = slot_at (slots s) src))"

text \<open>The multiset of the contents of the slots that are not empty.\<close>

definition placed :: "slot list \<Rightarrow> slot multiset" where
  "placed sl = mset (filter truthy sl)"

text \<open>No text is in two slots.\<close>

definition no_line_twice :: "slot list \<Rightarrow> bool" where
  "no_line_twice sl = distinct (filter truthy sl)"

text \<open>
  The board has fourteen slots and holds exactly the lines of the canonical sequence, which
  is that of one of the usable sonnets; before a sonnet is loaded it holds no line.
\<close>

definition canonical_placed :: "string list \<Rightarrow> game \<Rightarrow> bool" where
  "canonical_placed sonnets s \<longleftrightarrow>
     length (slots s) = 14 \<and>
     (case currentSonnet s of
        None \<Rightarrow> placed (slots s) = {#}
      | Some cs \<Rightarrow>
          cs \<in> set (map sonnet_lines (validSonnets sonnets)) \<and>
          placed (slots s) = mset (map Some cs))"

text \<open>Every slot marked as checked or incorrect holds a line.\<close>

definition annotations_ok :: "game \<Rightarrow> bool" where
  "annotations_ok s \<longleftrightarrow>
     (\<forall>i \<in> incorrectSlots s \<union> checkedSlots s. truthy (slot_at (slots s) i))"

text \<open>
  \<open>isComplete\<close> in the words of the specification: every slot 0..13 holds exactly the line
  at that index of the canonical sequence.
\<close>

definition isComplete_spec :: "game \<Rightarrow> bool" where
  "isComplete_spec s \<longleftrightarrow>
     (case currentSonnet s of
        None \<Rightarrow> False
      | Some cs \<Rightarrow> list_all (\<lambda>i. slot_at (slots s) i = Some (cs ! i)) [0..<14])"

text \<open>
  The shake formula in the words of the specification:
  \<open>sin(elapsed \<cdot> 20 \<cdot> \<pi> / 1000) \<cdot> 10 \<cdot> (1 \<minus> elapsed/500)\<close>.
\<close>

definition shake_formula :: "int \<Rightarrow> real" where
  "shake_formula elapsed =
     sin (real_of_int elapsed * 20 * pi / 1000) * 10 * (1 - real_of_int elapsed / 500)"

text \<open>The test \<^verbatim>\<open>!shakeStartTime\<close> fails: a shake is running.\<close>

definition timer_active :: "game \<Rightarrow> bool" where
  "timer_active s = (case shakeStartTime s of None \<Rightarrow> False | Some t \<Rightarrow> t \<noteq> 0)"

text \<open>
  A puzzle state in the sense of the specification: fourteen slots and, once a sonnet is
  loaded, a canonical sequence of fourteen lines, none of them empty.
\<close>

definition puzzle_state :: "game \<Rightarrow> bool" where
  "puzzle_state s \<longleftrightarrow>
     length (slots s) = 14 \<and>
     (case currentSonnet s of
        None \<Rightarrow> True
      | Some cs \<Rightarrow> length cs = 14 \<and> list_all (\<lambda>l. l \<noteq> []) cs)"

subsection \<open>Sample data\<close>

definition letters :: "line list" where
  "letters = map (\<lambda>c. [c]) ''ABCDEFGHIJKLMN''"

text \<open>A sonnet text: the given lines, each followed by a line feed.\<close>

definition sonnet_text :: "line list \<Rightarrow> string" where
  "sonnet_text ls = concat (map (\<lambda>l. l @ [CHR 0x0A]) ls)"

text \<open>A refrain: the first line comes back as the third.\<close>

definition refrain :: "line list" where
  "refrain = letters[2 := ''A'']"

text \<open>Draws that make every exchange of \<^verbatim>\<open>shuffleArray\<close> one of an element with itself.\<close>

definition still_draws :: draws where
  "still_draws = \<lparr>pick = 0, lineDraws = (\<lambda>i. i), slotDraws = (\<lambda>i. i)\<rparr>"

text \<open>Draws that move lines and slots about.\<close>

definition mixing_draws :: draws where
  "mixing_draws = \<lparr>pick = 0, lineDraws = (\<lambda>i. 0), slotDraws = (\<lambda>i. i div 2)\<rparr>"

definition board :: "line list \<Rightarrow> slot list \<Rightarrow> game" where
  "board cs sl = load_state\<lparr>currentSonnet := Some cs, slots := sl\<rparr>"

text \<open>A solved board on which slots 0 and 5 are marked and the last check passed.\<close>

definition marked_board :: game where
  "marked_board =
     (board letters (map Some letters))
       \<lparr>incorrectSlots := {5}, checkedSlots := {0, 5}, hasCheckedAndPassed := True\<rparr>"

text \<open>A board with slot 3 empty, one second after the page was loaded, shaking since then.\<close>

definition shaking_board :: game where
  "shaking_board =
     (board letters ((map Some letters)[3 := None]))
       \<lparr>shakingSlots := {3}, shakeStartTime := Some 1000, shakeAnimationFrame := True\<rparr>"

text \<open>Two states that differ at most in the three variables of the shake timer.\<close>

definition same_board :: "game \<Rightarrow> game \<Rightarrow> bool" where
  "same_board s s' \<longleftrightarrow>
     currentSonnet s' = currentSonnet s \<and> slots s' = slots s \<and>
     draggedLine s' = draggedLine s \<and> draggedSlotIndex s' = draggedSlotIndex s \<and>
     isDragging s' = isDragging s \<and> hoveredSlotIndex s' = hoveredSlotIndex s \<and>
     incorrectSlots s' = incorrectSlots s \<and> checkedSlots s' = checkedSlots s \<and>
     checkOrderCount s' = checkOrderCount s \<and> hasCheckedAndPassed s' = hasCheckedAndPassed s \<and>
     alerts s' = alerts s"

section \<open>Proofs\<close>

subsection \<open>What \<^verbatim>\<open>render\<close> leaves alone\<close>

lemma same_board_refl: "same_board s s"
  by (simp add: same_board_def)

lemma same_board_trans: "same_board a b \<Longrightarrow> same_board b c \<Longrightarrow> same_board a c"
  by (simp add: same_board_def)

lemma same_board_getShakeOffset: "same_board s (getShakeOffset_state now s)"
  by (simp add: getShakeOffset_state_def same_board_def Let_def split: option.split)

lemma same_board_foldl:
  "same_board s
     (foldl (\<lambda>s' i. if i \<in> shakingSlots s' then getShakeOffset_state now s' else s') s js)"
proof (induction js arbitrary: s)
  case Nil
  show ?case by (simp add: same_board_refl)
next
  case (Cons j js)
  let ?s1 = "if j \<in> shakingSlots s then getShakeOffset_state now s else s"
  have a: "same_board s ?s1"
    by (simp add: same_board_getShakeOffset same_board_refl)
  have b: "same_board ?s1
      (foldl (\<lambda>s' i. if i \<in> shakingSlots s' then getShakeOffset_state now s' else s') ?s1 js)"
    by (rule Cons.IH)
  have "same_board s
      (foldl (\<lambda>s' i. if i \<in> shakingSlots s' then getShakeOffset_state now s' else s') ?s1 js)"
    by (rule same_board_trans [OF a b])
  then show ?case
    by (simp only: foldl_Cons)
qed

lemma same_board_render_slots: "same_board s (render_slots now s)"
  unfolding render_slots_def by (rule same_board_foldl)

lemma same_board_render: "same_board s (render now s)"
proof -
  have a: "same_board s (render_slots now s)"
    by (rule same_board_render_slots)
  have b: "same_board (render_slots now s) (render_slots now (render_slots now s))"
    by (rule same_board_render_slots)
  show ?thesis
    unfolding render_def Let_def
    using a same_board_trans [OF a b] by simp
qed

lemma render_fields [simp]:
  "currentSonnet (render now s) = currentSonnet s"
  "slots (render now s) = slots s"
  "draggedLine (render now s) = draggedLine s"
  "draggedSlotIndex (render now s) = draggedSlotIndex s"
  "isDragging (render now s) = isDragging s"
  "hoveredSlotIndex (render now s) = hoveredSlotIndex s"
  "incorrectSlots (render now s) = incorrectSlots s"
  "checkedSlots (render now s) = checkedSlots s"
  "checkOrderCount (render now s) = checkOrderCount s"
  "hasCheckedAndPassed (render now s) = hasCheckedAndPassed s"
  "alerts (render now s) = alerts s"
  using same_board_render [of s now] by (simp_all add: same_board_def)

lemma foldl_fixed: "(\<And>j. f s j = s) \<Longrightarrow> foldl f s js = s"
  by (induction js) simp_all

text \<open>While a shake is less than 500 ms old, \<^verbatim>\<open>render\<close> assigns to no variable.\<close>

lemma render_during_shake:
  assumes "shakeStartTime s = Some t" and "now - t < 500"
  shows "render now s = s"
proof -
  have "getShakeOffset_state now s = s"
    using assms by (simp add: getShakeOffset_state_def)
  then have "render_slots now s = s"
    unfolding render_slots_def by (intro foldl_fixed) simp
  then show ?thesis
    by (simp add: render_def)
qed

lemma render_without_shake:
  assumes "shakingSlots s = {}"
  shows "render now s = s"
proof -
  have "render_slots now s = s"
    unfolding render_slots_def using assms by (intro foldl_fixed) simp
  then show ?thesis
    by (simp add: render_def)
qed

subsection \<open>Reading and writing slots\<close>

lemma list_all_upt: "list_all P [a..<b] \<longleftrightarrow> (\<forall>i. a \<le> i \<and> i < b \<longrightarrow> P i)"
  by (auto simp: list_all_iff)

lemma slot_at_set_slot:
  "slot_at (set_slot xs i v) j = (if j = i then v else slot_at xs j)"
  by (auto simp: slot_at_def set_slot_def nth_append)

lemma slot_at_drop_slots:
  "slot_at (drop_slots sl c src k) j =
     (if truthy (slot_at sl k)
      then (if j = src then slot_at sl k else if j = k then c else slot_at sl j)
      else (if j = k then c else if j = src then None else slot_at sl j))"
  by (simp add: drop_slots_def slot_at_set_slot)

lemma clearSlotState_pair [simp]:
  "incorrectSlots (clearSlotState [k, src] s) = incorrectSlots s - {k} - {src}"
  "checkedSlots (clearSlotState [k, src] s) = checkedSlots s - {k} - {src}"
  "slots (clearSlotState [k, src] s) = slots s"
  "currentSonnet (clearSlotState [k, src] s) = currentSonnet s"
  "checkOrderCount (clearSlotState [k, src] s) = checkOrderCount s"
  "alerts (clearSlotState [k, src] s) = alerts s"
  by (simp_all add: clearSlotState_def)

subsection \<open>The pointer is on a slot or on a button, not both\<close>

lemma getSlotAt_range: "getSlotAt lay n x y = Some i \<Longrightarrow> i < n"
  by (auto simp: getSlotAt_def find_Some_iff)

lemma button_at_low: "button_at lay x y = Some key \<Longrightarrow> y \<le> 55"
  by (auto simp: button_at_def getButtons_def getButtonY_def getButtonHeight_def Let_def
      split: if_splits)

lemma slot_position_high: "90 \<le> snd (getSlotPosition lay i)"
proof -
  have "0 \<le> real (i div SLOTS_PER_ROW) * (getSlotHeight lay + SLOT_MARGIN)"
    by (simp add: getSlotHeight_def SLOT_MARGIN_def)
  moreover have "90 \<le> getSlotStartY lay"
    by (simp add: getSlotStartY_def)
  ultimately show ?thesis
    by (simp add: getSlotPosition_def Let_def)
qed

lemma button_excludes_slot:
  assumes "button_at lay x y = Some key"
  shows "getSlotAt lay n x y = None"
proof -
  have "y \<le> 55"
    using assms by (rule button_at_low)
  then have "\<not> y \<ge> snd (getSlotPosition lay i)" for i
    using slot_position_high [of lay i] by simp
  then show ?thesis
    by (simp add: getSlotAt_def find_None_iff Let_def)
qed

text \<open>
  So the slot and the button that \<^verbatim>\<open>handlePointerDown\<close> finds at a point satisfy what
  \<open>admissible\<close> asks of them, apart from the draws and the drag.
\<close>

lemma pointer_hits_ok:
  "hit_ok s (getSlotAt lay (length (slots s)) x y)"
  "button_at lay x y = Some key \<Longrightarrow> getSlotAt lay (length (slots s)) x y = None"
  by (auto simp: hit_ok_def button_excludes_slot dest: getSlotAt_range split: option.split)

section \<open>Dropping a line\<close>

lemma pickUp_starts_session:
  "truthy (slot_at (slots s) src) \<Longrightarrow>
   session_from (handlePointerDown sonnets d now (Some src) None s) src"
  by (simp add: handlePointerDown_def session_from_def)

lemma hover_keeps_session:
  "session_from s src \<Longrightarrow> session_from (handlePointerMove now k s) src"
  by (auto simp: handlePointerMove_def session_from_def)

text \<open>
  C1. While the line of slot \<open>src\<close> is being dragged, a drop outside all slots or on \<open>src\<close>
  itself leaves the contents of every slot, the checked and incorrect sets, the pass flag,
  the count of checks and the canonical sequence as they are; the line carried is still in
  slot \<open>src\<close>; and the drag is over (all four drag variables are reset).
\<close>

theorem drop_outside_or_back_is_lossless:
  assumes "session_from s src" and "target = None \<or> target = Some src"
  shows "slots (handlePointerUp now target s) = slots s \<and>
         slot_at (slots (handlePointerUp now target s)) src = draggedLine s \<and>
         incorrectSlots (handlePointerUp now target s) = incorrectSlots s \<and>
         checkedSlots (handlePointerUp now target s) = checkedSlots s \<and>
         hasCheckedAndPassed (handlePointerUp now target s) = hasCheckedAndPassed s \<and>
         checkOrderCount (handlePointerUp now target s) = checkOrderCount s \<and>
         currentSonnet (handlePointerUp now target s) = currentSonnet s \<and>
         \<not> isDragging (handlePointerUp now target s) \<and>
         draggedLine (handlePointerUp now target s) = None \<and>
         draggedSlotIndex (handlePointerUp now target s) = None \<and>
         hoveredSlotIndex (handlePointerUp now target s) = None"
  using assms by (auto simp: handlePointerUp_def session_from_def)

theorem drop_outside_or_back_is_lossless_witness:
  "session_from (handlePointerDown [] still_draws 0 (Some 2) None (board letters (map Some letters))) 2 \<and>
   slots (handlePointerUp 9 None
           (handlePointerDown [] still_draws 0 (Some 2) None (board letters (map Some letters))))
     = map Some letters \<and>
   \<not> isDragging (handlePointerUp 9 None
           (handlePointerDown [] still_draws 0 (Some 2) None (board letters (map Some letters))))"
proof -
  let ?b = "board letters (map Some letters)"
  let ?s = "handlePointerDown [] still_draws 0 (Some 2) None ?b"
  have filled: "truthy (slot_at (slots ?b) 2)"
    by (simp add: board_def letters_def slot_at_def)
  have a: "session_from ?s 2"
    by (rule pickUp_starts_session [OF filled])
  have b: "slots ?s = map Some letters"
    by (simp add: handlePointerDown_def board_def letters_def slot_at_def)
  have c: "slots (handlePointerUp 9 None ?s) = slots ?s \<and>
           \<not> isDragging (handlePointerUp 9 None ?s)"
    using drop_outside_or_back_is_lossless [OF a, of None 9] by simp
  have d: "slots (handlePointerUp 9 None ?s) = map Some letters"
    using b c by simp
  have e: "\<not> isDragging (handlePointerUp 9 None ?s)"
    using c by simp
  show ?thesis
    by (rule conjI [OF a conjI [OF d e]])
qed

text \<open>
  In the first listing a drop outside all slots empties the slot the line came from: the
  line is gone from the board.
\<close>

lemma handlePointerUp_v1_outside_loses_line:
  "slots (handlePointerUp_v1 9 None
           (handlePointerDown [] still_draws 0 (Some 2) None (board letters (map Some letters))))
     = (map Some letters)[2 := None]"
  by (simp add: handlePointerUp_v1_def handlePointerDown_def board_def letters_def slot_at_def
      set_slot_def)

text \<open>
  In the first listing a drop back onto the source slot takes the slot out of the checked
  set.
\<close>

lemma handlePointerUp_v1_back_unmarks:
  "checkedSlots (handlePointerDown [] still_draws 0 (Some 0) None marked_board) = {0, 5} \<and>
   checkedSlots (handlePointerUp_v1 9 (Some 0)
      (handlePointerDown [] still_draws 0 (Some 0) None marked_board)) = {5}"
  by code_simp

section \<open>Drops conserve the lines\<close>

lemma placed_filter_mset: "placed sl = filter_mset truthy (mset sl)"
  by (simp add: placed_def)

lemma truthy_slot_at_in_placed:
  "truthy (slot_at sl i) \<Longrightarrow> slot_at sl i \<in># placed sl"
  by (auto simp: slot_at_def placed_def split: if_splits)

lemma mset_replicate_None_not_truthy:
  "filter_mset truthy (mset (replicate n None)) = {#}"
  by (induction n) simp_all

text \<open>What an assignment to one slot does to the multiset of lines on the board.\<close>

lemma placed_set_slot:
  "placed (set_slot sl i v) =
     (placed sl - (if truthy (slot_at sl i) then {#slot_at sl i#} else {#}))
     + (if truthy v then {#v#} else {#})"
proof (cases "i < length sl")
  case True
  then have "mset (set_slot sl i v) = add_mset v (mset sl - {#sl ! i#})"
    by (simp add: set_slot_def mset_update)
  then have "placed (set_slot sl i v) =
      filter_mset truthy (mset sl - {#sl ! i#}) + (if truthy v then {#v#} else {#})"
    by (simp add: placed_filter_mset)
  also have "filter_mset truthy (mset sl - {#sl ! i#}) =
      placed sl - (if truthy (sl ! i) then {#sl ! i#} else {#})"
    by (simp add: placed_filter_mset filter_diff_mset)
  finally show ?thesis
    using True by (simp add: slot_at_def)
next
  case False
  then show ?thesis
    by (simp add: set_slot_def slot_at_def placed_filter_mset mset_replicate_None_not_truthy)
qed

text \<open>
  The exchange and the move of \<^verbatim>\<open>handlePointerUp\<close> keep the multiset, when the line carried
  is the one in the source slot.
\<close>

lemma placed_drop_slots:
  assumes "truthy carried" and "carried = slot_at sl src" and "src \<noteq> k"
  shows "placed (drop_slots sl carried src k) = placed sl"
proof (cases "truthy (slot_at sl k)")
  case True
  have in_k: "slot_at sl k \<in># placed sl"
    by (rule truthy_slot_at_in_placed [OF True])
  have "placed (drop_slots sl carried src k) =
      placed sl - {#slot_at sl k#} + {#carried#} - {#carried#} + {#slot_at sl k#}"
    using True assms by (simp add: drop_slots_def placed_set_slot slot_at_set_slot)
  also have "\<dots> = placed sl"
    using in_k by simp
  finally show ?thesis .
next
  case False
  have in_src: "carried \<in># placed sl"
    using assms truthy_slot_at_in_placed [of sl src] by simp
  have "placed (drop_slots sl carried src k) = placed sl - {#carried#} + {#carried#}"
    using False assms by (simp add: drop_slots_def placed_set_slot slot_at_set_slot)
  also have "\<dots> = placed sl"
    using in_src by simp
  finally show ?thesis .
qed

lemma placed_handlePointerUp:
  assumes "session_ok s"
  shows "placed (slots (handlePointerUp now target s)) = placed (slots s)"
proof (cases "isDragging s \<and> truthy (draggedLine s)")
  case False
  then show ?thesis by (auto simp: handlePointerUp_def)
next
  case drag: True
  show ?thesis
  proof (cases target)
    case None
    with drag show ?thesis by (simp add: handlePointerUp_def)
  next
    case (Some k)
    show ?thesis
    proof (cases "draggedSlotIndex s")
      case None
      with drag Some show ?thesis by (simp add: handlePointerUp_def)
    next
      case src: (Some src)
      show ?thesis
      proof (cases "src = k")
        case True
        with drag Some src show ?thesis by (simp add: handlePointerUp_def)
      next
        case False
        have carried: "draggedLine s = slot_at (slots s) src"
          using assms drag src by (simp add: session_ok_def)
        have "slots (handlePointerUp now target s) = drop_slots (slots s) (draggedLine s) src k"
          using drag Some src False by (simp add: handlePointerUp_def)
        then show ?thesis
          using placed_drop_slots [OF _ carried False] drag by simp
      qed
    qed
  qed
qed

lemma handlePointerUp_fields [simp]:
  "currentSonnet (handlePointerUp now target s) = currentSonnet s"
  "checkOrderCount (handlePointerUp now target s) = checkOrderCount s"
  "alerts (handlePointerUp now target s) = alerts s"
  by (simp_all add: handlePointerUp_def split: option.split)

lemma session_ok_handlePointerUp: "session_ok (handlePointerUp now target s) \<or> \<not> session_ok s"
  by (simp add: handlePointerUp_def session_ok_def)

lemma checkOrder_fields [simp]:
  "slots (checkOrder now s) = slots s"
  "currentSonnet (checkOrder now s) = currentSonnet s"
  "draggedLine (checkOrder now s) = draggedLine s"
  "draggedSlotIndex (checkOrder now s) = draggedSlotIndex s"
  "isDragging (checkOrder now s) = isDragging s"
  "alerts (checkOrder now s) = alerts s"
  by (simp_all add: checkOrder_def Let_def split: option.split)

lemma session_ok_fields:
  assumes "isDragging s' = isDragging s" and "draggedLine s' = draggedLine s"
    and "draggedSlotIndex s' = draggedSlotIndex s" and "slots s' = slots s"
  shows "session_ok s' = session_ok s"
  using assms by (auto simp: session_ok_def split: option.splits)

lemma session_ok_checkOrder [simp]: "session_ok (checkOrder now s) = session_ok s"
  by (rule session_ok_fields) simp_all

lemma session_ok_render [simp]: "session_ok (render now s) = session_ok s"
  by (rule session_ok_fields) simp_all

lemma session_ok_hovered [simp]: "session_ok (s\<lparr>hoveredSlotIndex := k\<rparr>) = session_ok s"
  by (rule session_ok_fields) simp_all

lemma session_ok_frame [simp]: "session_ok (s\<lparr>shakeAnimationFrame := b\<rparr>) = session_ok s"
  by (rule session_ok_fields) simp_all

text \<open>The part of \<^verbatim>\<open>handlePointerDown\<close> before the loop over the buttons.\<close>

lemma handlePointerDown_no_button:
  "session_ok (handlePointerDown sonnets d now slotIndex None s) \<or> \<not> session_ok s"
  "slots (handlePointerDown sonnets d now slotIndex None s) = slots s"
  "currentSonnet (handlePointerDown sonnets d now slotIndex None s) = currentSonnet s"
  by (auto simp: handlePointerDown_def session_ok_def split: option.split)

lemma handlePointerDown_check_button:
  "session_ok (handlePointerDown sonnets d now slotIndex (Some checkOrder_key) s) \<or> \<not> session_ok s"
  "slots (handlePointerDown sonnets d now slotIndex (Some checkOrder_key) s) = slots s"
  "currentSonnet (handlePointerDown sonnets d now slotIndex (Some checkOrder_key) s) = currentSonnet s"
  by (auto simp: handlePointerDown_def handleButtonClick_def session_ok_def Let_def
      split: option.split)

text \<open>Every event other than a press on New Sonnet keeps the lines and a sound drag.\<close>

lemma step_keeps_lines:
  assumes "session_ok s" and "\<not> restarts e"
  shows "placed (slots (step sonnets s e)) = placed (slots s) \<and>
         session_ok (step sonnets s e) \<and>
         currentSonnet (step sonnets s e) = currentSonnet s"
proof (cases e)
  case (PointerDown d now slotIndex hit)
  show ?thesis
  proof (cases hit)
    case None
    with PointerDown assms(1) handlePointerDown_no_button [of sonnets d now slotIndex s]
    show ?thesis by simp
  next
    case (Some key)
    with PointerDown assms(2) have "key = checkOrder_key"
      by (cases key) simp_all
    with Some PointerDown assms(1) handlePointerDown_check_button [of sonnets d now slotIndex s]
    show ?thesis by simp
  qed
next
  case (PointerMove now slotIndex)
  with assms(1) show ?thesis
    by (simp add: handlePointerMove_def)
next
  case (PointerUp now slotIndex)
  with assms(1) placed_handlePointerUp [OF assms(1)] session_ok_handlePointerUp [of now slotIndex s]
  show ?thesis by simp
next
  case (AnimationFrame now)
  with assms(1) show ?thesis
    by (simp add: animateShake_def)
next
  case (Resize now)
  with assms(1) show ?thesis
    by (simp add: handleResize_def)
qed

lemma run_keeps_lines:
  assumes "session_ok s" and "\<forall>e \<in> set es. \<not> restarts e"
  shows "placed (slots (run sonnets s es)) = placed (slots s) \<and>
         session_ok (run sonnets s es) \<and>
         currentSonnet (run sonnets s es) = currentSonnet s"
  using assms
proof (induction es arbitrary: s)
  case Nil
  then show ?case by (simp add: run_def)
next
  case (Cons e es)
  have e: "placed (slots (step sonnets s e)) = placed (slots s) \<and>
           session_ok (step sonnets s e) \<and>
           currentSonnet (step sonnets s e) = currentSonnet s"
    using Cons.prems by (intro step_keeps_lines) simp_all
  have "placed (slots (run sonnets (step sonnets s e) es)) = placed (slots (step sonnets s e)) \<and>
        session_ok (run sonnets (step sonnets s e) es) \<and>
        currentSonnet (run sonnets (step sonnets s e) es) = currentSonnet (step sonnets s e)"
    using Cons.prems e by (intro Cons.IH) simp_all
  with e show ?case
    by (simp add: run_def)
qed

text \<open>
  Start in any state in which no line is being dragged, or the line being dragged is the
  one in its source slot. Then after any sequence of pointer-downs on slots, moves, drops,
  frames, resizes and presses on Check Order, in any order, the multiset of the lines on the
  board is the one at the start, and a drop in the state reached, on any slot or outside,
  leaves it as it is: an exchange keeps both lines, a move keeps the line, a drop outside
  changes nothing.
\<close>

lemma sound_drags_conserve_lines:
  assumes "session_ok s" and "\<forall>e \<in> set es. \<not> restarts e"
  shows "placed (slots (run sonnets s es)) = placed (slots s) \<and>
         placed (slots (handlePointerUp now target (run sonnets s es)))
           = placed (slots (run sonnets s es))"
  using run_keeps_lines [OF assms] placed_handlePointerUp by simp

lemma sound_drags_conserve_lines_example:
  "slots (run [sonnet_text letters] (start [sonnet_text letters] still_draws 0)
           [PointerDown still_draws 10 (Some 0) None, PointerUp 20 (Some 5),
            PointerDown still_draws 30 (Some 1) None, PointerUp 40 None])
     = (map Some letters)[0 := Some ''F'', 5 := Some ''A''] \<and>
   placed (slots (run [sonnet_text letters] (start [sonnet_text letters] still_draws 0)
           [PointerDown still_draws 10 (Some 0) None, PointerUp 20 (Some 5),
            PointerDown still_draws 30 (Some 1) None, PointerUp 40 None]))
     = placed (slots (start [sonnet_text letters] still_draws 0))"
proof -
  let ?es = "[PointerDown still_draws 10 (Some 0) None, PointerUp 20 (Some 5),
              PointerDown still_draws 30 (Some 1) None, PointerUp 40 None]"
  let ?s = "start [sonnet_text letters] still_draws 0"
  have a: "session_ok ?s" by code_simp
  have b: "\<forall>e \<in> set ?es. \<not> restarts e" by simp
  have c: "slots (run [sonnet_text letters] ?s ?es)
             = (map Some letters)[0 := Some ''F'', 5 := Some ''A'']"
    by code_simp
  show ?thesis
    using c sound_drags_conserve_lines [OF a b, of "[sonnet_text letters]"] by blast
qed

text \<open>
  C2. The code does not conserve the lines in every state it reaches: \<^verbatim>\<open>initGame\<close> resets the
  marks, the count and the pass flag but not \<^verbatim>\<open>isDragging\<close>, \<^verbatim>\<open>draggedLine\<close> and
  \<^verbatim>\<open>draggedSlotIndex\<close>. With two sonnets, the lines A to N and the lines N to A, the page
  loads the first one solved; a press on Check Order passes; a pointer-down on slot 0 picks
  up line A; a pointer-down on New Sonnet, enabled, loads the second sonnet while the drag
  variables still say that A of slot 0 is carried. The state reached holds each of the
  fourteen lines once. The pointer-up on slot 1 then exchanges with the stale line: slot 1
  gets A, slot 0 gets the M of slot 1, and the N of slot 0 is gone. After the drop the board
  holds A twice and N not at all, so the multiset after this drop is not the one before it.
\<close>

theorem drop_after_restart_changes_lines:
  "isDragging
     (run [sonnet_text letters, sonnet_text (rev letters)]
        (start [sonnet_text letters, sonnet_text (rev letters)] still_draws 0)
        [PointerDown still_draws 10 None (Some checkOrder_key),
         PointerDown still_draws 20 (Some 0) None,
         PointerDown (still_draws\<lparr>pick := 1\<rparr>) 30 None (Some newSonnet_key)]) \<and>
   draggedLine
     (run [sonnet_text letters, sonnet_text (rev letters)]
        (start [sonnet_text letters, sonnet_text (rev letters)] still_draws 0)
        [PointerDown still_draws 10 None (Some checkOrder_key),
         PointerDown still_draws 20 (Some 0) None,
         PointerDown (still_draws\<lparr>pick := 1\<rparr>) 30 None (Some newSonnet_key)]) = Some ''A'' \<and>
   slots
     (run [sonnet_text letters, sonnet_text (rev letters)]
        (start [sonnet_text letters, sonnet_text (rev letters)] still_draws 0)
        [PointerDown still_draws 10 None (Some checkOrder_key),
         PointerDown still_draws 20 (Some 0) None,
         PointerDown (still_draws\<lparr>pick := 1\<rparr>) 30 None (Some newSonnet_key)])
     = map Some (rev letters) \<and>
   slots
     (run [sonnet_text letters, sonnet_text (rev letters)]
        (start [sonnet_text letters, sonnet_text (rev letters)] still_draws 0)
        [PointerDown still_draws 10 None (Some checkOrder_key),
         PointerDown still_draws 20 (Some 0) None,
         PointerDown (still_draws\<lparr>pick := 1\<rparr>) 30 None (Some newSonnet_key),
         PointerUp 40 (Some 1)])
     = (map Some (rev letters))[1 := Some ''A'', 0 := Some ''M''] \<and>
   count (placed (map Some (rev letters))) (Some ''N'') = 1 \<and>
   count (placed ((map Some (rev letters))[1 := Some ''A'', 0 := Some ''M''])) (Some ''N'') = 0 \<and>
   count (placed ((map Some (rev letters))[1 := Some ''A'', 0 := Some ''M''])) (Some ''A'') = 2 \<and>
   placed (slots
     (run [sonnet_text letters, sonnet_text (rev letters)]
        (start [sonnet_text letters, sonnet_text (rev letters)] still_draws 0)
        [PointerDown still_draws 10 None (Some checkOrder_key),
         PointerDown still_draws 20 (Some 0) None,
         PointerDown (still_draws\<lparr>pick := 1\<rparr>) 30 None (Some newSonnet_key),
         PointerUp 40 (Some 1)]))
     \<noteq> placed (slots
     (run [sonnet_text letters, sonnet_text (rev letters)]
        (start [sonnet_text letters, sonnet_text (rev letters)] still_draws 0)
        [PointerDown still_draws 10 None (Some checkOrder_key),
         PointerDown still_draws 20 (Some 0) None,
         PointerDown (still_draws\<lparr>pick := 1\<rparr>) 30 None (Some newSonnet_key)]))"
proof -
  let ?sonnets = "[sonnet_text letters, sonnet_text (rev letters)]"
  let ?es = "[PointerDown still_draws 10 None (Some checkOrder_key),
              PointerDown still_draws 20 (Some 0) None,
              PointerDown (still_draws\<lparr>pick := 1\<rparr>) 30 None (Some newSonnet_key)]"
  let ?before = "run ?sonnets (start ?sonnets still_draws 0) ?es"
  let ?after = "run ?sonnets (start ?sonnets still_draws 0) (?es @ [PointerUp 40 (Some 1)])"
  have a: "isDragging ?before" by code_simp
  have b: "draggedLine ?before = Some ''A''" by code_simp
  have c: "slots ?before = map Some (rev letters)" by code_simp
  have d: "slots ?after = (map Some (rev letters))[1 := Some ''A'', 0 := Some ''M'']"
    by code_simp
  have e: "count (placed (map Some (rev letters))) (Some ''N'') = 1"
    by (simp add: placed_def letters_def)
  have f: "count (placed ((map Some (rev letters))[1 := Some ''A'', 0 := Some ''M''])) (Some ''N'') = 0"
    by (simp add: placed_def letters_def)
  have g: "count (placed ((map Some (rev letters))[1 := Some ''A'', 0 := Some ''M''])) (Some ''A'') = 2"
    by (simp add: placed_def letters_def)
  have "placed (slots ?after) \<noteq> placed (slots ?before)"
    unfolding c d using e f by (metis zero_neq_one)
  then show ?thesis
    using a b c d e f g by simp
qed

text \<open>
  In a state reached like this the line carried is not the one in its source slot.
\<close>

lemma restart_during_drag_breaks_session:
  "\<not> session_ok
      (run [sonnet_text letters, sonnet_text (rev letters)]
         (start [sonnet_text letters, sonnet_text (rev letters)] still_draws 0)
         [PointerDown still_draws 10 None (Some checkOrder_key),
          PointerDown still_draws 20 (Some 0) None,
          PointerDown (still_draws\<lparr>pick := 1\<rparr>) 30 None (Some newSonnet_key)])"
  by code_simp

section \<open>The New Sonnet button\<close>

text \<open>
  On fourteen slots and a canonical sequence of fourteen lines, \<^verbatim>\<open>isOrderCorrect\<close> is
  \<open>isComplete\<close> as the specification words it.
\<close>

lemma isOrderCorrect_is_isComplete:
  assumes "puzzle_state s"
  shows "isOrderCorrect s = isComplete_spec s"
proof (cases "currentSonnet s")
  case None
  then show ?thesis by (simp add: isOrderCorrect_def isComplete_spec_def)
next
  case (Some cs)
  with assms have len: "length cs = 14" "length (slots s) = 14"
    by (simp_all add: puzzle_state_def)
  then have "cs \<noteq> []" by auto
  then show ?thesis
    using Some len by (simp add: isOrderCorrect_def isComplete_spec_def)
qed

text \<open>
  C3. In a puzzle state, the New Sonnet button is enabled exactly when the board is complete
  and the pass flag is set, and a press on it starts a new puzzle in that case and changes
  nothing otherwise. So a complete board whose pass flag is not set does not start a new
  puzzle.
\<close>

theorem new_puzzle_needs_complete_and_passed:
  assumes "puzzle_state s"
  shows "(\<not> isButtonDisabled newSonnet_key s) = (isComplete_spec s \<and> hasCheckedAndPassed s) \<and>
         handlePointerDown sonnets d now None (Some newSonnet_key) s =
           (if isComplete_spec s \<and> hasCheckedAndPassed s then initGame sonnets d now s else s)"
  using isOrderCorrect_is_isComplete [OF assms]
  by (simp add: handlePointerDown_def handleButtonClick_def)

theorem new_puzzle_needs_complete_and_passed_witness:
  "puzzle_state (board letters (map Some letters)) \<and>
   isComplete_spec (board letters (map Some letters)) \<and>
   \<not> hasCheckedAndPassed (board letters (map Some letters)) \<and>
   isButtonDisabled newSonnet_key (board letters (map Some letters)) \<and>
   handlePointerDown [sonnet_text letters] still_draws 3 None (Some newSonnet_key)
     (board letters (map Some letters)) = board letters (map Some letters)"
proof -
  let ?b = "board letters (map Some letters)"
  have a: "puzzle_state ?b" by code_simp
  have b: "isComplete_spec ?b" by code_simp
  have c: "\<not> hasCheckedAndPassed ?b" by code_simp
  show ?thesis
    using a b c new_puzzle_needs_complete_and_passed [OF a, of "[sonnet_text letters]" still_draws 3]
    by simp
qed

text \<open>
  The first listing enables the button on a complete board, checked or not.
\<close>

lemma newSonnet_enabled_v1_without_check:
  "\<not> newSonnet_disabled_v1 (board letters (map Some letters)) \<and>
   \<not> hasCheckedAndPassed (board letters (map Some letters))"
  by code_simp

section \<open>Check Order on an empty board\<close>

lemma empty_board_slot_at:
  "\<not> hasAtLeastOneLinePlaced s \<Longrightarrow> \<not> truthy (slot_at (slots s) i)"
  by (auto simp: hasAtLeastOneLinePlaced_def slot_at_def list_ex_iff)

text \<open>
  C4. When no slot holds a line, a press on the Check Order button changes none of the
  module variables: the count of checks, the checked, incorrect and shaking sets and the
  count of alerts are as before. (The button is disabled then, and \<^verbatim>\<open>checkOrder\<close> is not
  called.)
\<close>

theorem check_on_empty_board_is_noop:
  assumes "\<not> hasAtLeastOneLinePlaced s"
  shows "handlePointerDown sonnets d now slotIndex (Some checkOrder_key) s = s"
proof -
  have "(case slotIndex of
           None \<Rightarrow> s
         | Some i \<Rightarrow>
             if truthy (slot_at (slots s) i) then
               s\<lparr>draggedLine := slot_at (slots s) i, draggedSlotIndex := Some i,
                 isDragging := True\<rparr>
             else s) = s"
    using empty_board_slot_at [OF assms] by (simp split: option.split)
  then show ?thesis
    using assms by (simp add: handlePointerDown_def)
qed

theorem check_on_empty_board_is_noop_witness:
  "\<not> hasAtLeastOneLinePlaced load_state \<and>
   handlePointerDown [] still_draws 7 None (Some checkOrder_key) load_state = load_state"
proof -
  have a: "\<not> hasAtLeastOneLinePlaced load_state"
    by (simp add: hasAtLeastOneLinePlaced_def load_state_def list_ex_iff)
  show ?thesis
    using a check_on_empty_board_is_noop [OF a, of "[]" still_draws 7 None] by simp
qed

text \<open>
  The guard is in the button, not in \<^verbatim>\<open>checkOrder\<close>: called on an empty board with a sonnet
  loaded, the function counts the check and shakes all the slots.
\<close>

lemma checkOrder_itself_counts_on_empty_board:
  "checkOrderCount (checkOrder 7 (board letters (replicate 14 None))) = 1 \<and>
   shakingSlots (checkOrder 7 (board letters (replicate 14 None))) = {0..<14}"
  by code_simp

section \<open>No line in two slots\<close>

subsection \<open>What \<^verbatim>\<open>getRandomSonnet\<close> returns\<close>

lemma sonnet_lines_valid:
  assumes "sn \<in> set (validSonnets sonnets)"
  shows "length (sonnet_lines sn) = 14" and "\<forall>l \<in> set (sonnet_lines sn). l \<noteq> []"
proof -
  have eq: "filter (\<lambda>l. l \<noteq> []) (map trim (split_lines sn)) =
            map trim (filter (\<lambda>l. trim l \<noteq> []) (split_lines sn))"
    by (simp add: filter_map comp_def)
  have "14 \<le> length (filter (\<lambda>l. trim l \<noteq> []) (split_lines sn))"
    using assms by (simp add: validSonnets_def)
  then show "length (sonnet_lines sn) = 14"
    unfolding sonnet_lines_def eq by simp
  show "\<forall>l \<in> set (sonnet_lines sn). l \<noteq> []"
    unfolding sonnet_lines_def by (auto dest: in_set_takeD)
qed

lemma getRandomSonnet_Some:
  assumes "getRandomSonnet sonnets r = Some cs" and "r < length (validSonnets sonnets)"
  shows "cs \<in> set (map sonnet_lines (validSonnets sonnets))"
    and "length cs = 14" and "\<forall>l \<in> set cs. l \<noteq> []"
proof -
  have cs: "cs = sonnet_lines (validSonnets sonnets ! r)"
    using assms(1) by (simp add: getRandomSonnet_def split: if_splits)
  have mem: "validSonnets sonnets ! r \<in> set (validSonnets sonnets)"
    using assms(2) by simp
  show "cs \<in> set (map sonnet_lines (validSonnets sonnets))"
    unfolding cs using mem by simp
  show "length cs = 14" and "\<forall>l \<in> set cs. l \<noteq> []"
    unfolding cs using sonnet_lines_valid [OF mem] by simp_all
qed

subsection \<open>The shuffle is a permutation\<close>

lemma mset_swap_here:
  assumes "i < length a" and "j < length a"
  shows "mset (swap a i j) = mset a" and "length (swap a i j) = length a"
  using assms by (simp_all add: swap_def mset_swap)

lemma shuffle_loop_perm:
  assumes "n < length a" and "\<forall>i. i \<le> n \<longrightarrow> rnd i \<le> i"
  shows "mset (shuffle_loop rnd n a) = mset a"
  using assms
proof (induction n arbitrary: a)
  case 0
  show ?case by simp
next
  case (Suc n)
  have j: "rnd (Suc n) < length a"
    using Suc.prems by (meson le_less_trans order_refl)
  have "mset (shuffle_loop rnd n (swap a (Suc n) (rnd (Suc n)))) =
        mset (swap a (Suc n) (rnd (Suc n)))"
    using Suc.prems j by (intro Suc.IH) (simp_all add: mset_swap_here)
  then show ?case
    using Suc.prems j by (simp add: mset_swap_here)
qed

lemma shuffleArray_perm:
  assumes "\<forall>i<length a. rnd i \<le> i"
  shows "mset (shuffleArray rnd a) = mset a"
proof (cases a)
  case Nil
  then show ?thesis by (simp add: shuffleArray_def)
next
  case (Cons x xs)
  then have "length a - 1 < length a" by simp
  moreover have "\<forall>i. i \<le> length a - 1 \<longrightarrow> rnd i \<le> i"
    using assms Cons by auto
  ultimately show ?thesis
    unfolding shuffleArray_def by (rule shuffle_loop_perm)
qed

subsection \<open>Placing the shuffled lines\<close>

lemma length_set_slot: "i < length sl \<Longrightarrow> length (set_slot sl i v) = length sl"
  by (simp add: set_slot_def)

lemma placed_replicate_None: "placed (replicate n None) = {#}"
  by (simp add: placed_filter_mset mset_replicate_None_not_truthy)

lemma place_lines_prefix:
  assumes idx: "distinct idx" "length idx = 14" "\<forall>p \<in> set idx. p < 14"
    and lines: "\<forall>l \<in> set lines. l \<noteq> []" "length lines \<le> 14"
    and n: "n \<le> length lines"
  shows "length (foldl (\<lambda>sl i. set_slot sl (idx ! i) (Some (lines ! i))) (replicate 14 None) [0..<n]) = 14 \<and>
         placed (foldl (\<lambda>sl i. set_slot sl (idx ! i) (Some (lines ! i))) (replicate 14 None) [0..<n])
           = mset (map Some (take n lines)) \<and>
         (\<forall>j. n \<le> j \<and> j < 14 \<longrightarrow>
            slot_at (foldl (\<lambda>sl i. set_slot sl (idx ! i) (Some (lines ! i))) (replicate 14 None) [0..<n])
              (idx ! j) = None)"
  using n
proof (induction n)
  case 0
  show ?case
    by (simp add: placed_replicate_None slot_at_def)
next
  case (Suc n)
  let ?f = "\<lambda>sl i. set_slot sl (idx ! i) (Some (lines ! i))"
  let ?sl = "foldl ?f (replicate 14 None) [0..<n]"
  from Suc.prems have n: "n < length lines" "n < 14"
    using lines(2) by simp_all
  from Suc.IH n have len: "length ?sl = 14"
    and pl: "placed ?sl = mset (map Some (take n lines))"
    and free: "\<And>j. n \<le> j \<Longrightarrow> j < 14 \<Longrightarrow> slot_at ?sl (idx ! j) = None"
    by simp_all
  have p: "idx ! n < 14"
    using idx n by simp
  have here: "slot_at ?sl (idx ! n) = None"
    using free [of n] n by simp
  have line: "lines ! n \<noteq> []"
    using lines(1) n by simp
  have step: "foldl ?f (replicate 14 None) [0..<Suc n] = set_slot ?sl (idx ! n) (Some (lines ! n))"
    by simp
  have a: "length (set_slot ?sl (idx ! n) (Some (lines ! n))) = 14"
    using p len by (simp add: length_set_slot)
  have b: "placed (set_slot ?sl (idx ! n) (Some (lines ! n))) = mset (map Some (take (Suc n) lines))"
    using here line pl n by (simp add: placed_set_slot take_Suc_conv_app_nth)
  have c: "slot_at (set_slot ?sl (idx ! n) (Some (lines ! n))) (idx ! j) = None"
    if "Suc n \<le> j" "j < 14" for j
  proof -
    have "idx ! j \<noteq> idx ! n"
      using idx that n by (simp add: nth_eq_iff_index_eq)
    then show ?thesis
      using free [of j] that by (simp add: slot_at_set_slot)
  qed
  show ?case
    unfolding step using a b c by blast
qed

lemma place_lines_perm:
  assumes "mset idx = mset [0..<14]" and "\<forall>l \<in> set lines. l \<noteq> []" and "length lines = 14"
  shows "length (place_lines lines idx) = 14"
    and "placed (place_lines lines idx) = mset (map Some lines)"
proof -
  have d: "distinct idx"
    using assms(1) mset_eq_imp_distinct_iff [of idx "[0..<14]"] by simp
  have l: "length idx = 14"
    using assms(1) mset_eq_length [of idx "[0..<14]"] by simp
  have s: "\<forall>p \<in> set idx. p < 14"
    using assms(1) mset_eq_setD [of idx "[0..<14]"] by simp
  have "length (place_lines lines idx) = 14 \<and>
        placed (place_lines lines idx) = mset (map Some (take (length lines) lines))"
    unfolding place_lines_def
    using place_lines_prefix [OF d l s assms(2), of "length lines"] assms(3) by simp
  then show "length (place_lines lines idx) = 14"
    and "placed (place_lines lines idx) = mset (map Some lines)"
    by simp_all
qed

subsection \<open>The invariant\<close>

lemma initGame_fields [simp]:
  "isDragging (initGame sonnets d now s) = isDragging s"
  "draggedLine (initGame sonnets d now s) = draggedLine s"
  "draggedSlotIndex (initGame sonnets d now s) = draggedSlotIndex s"
  by (simp_all add: initGame_def Let_def split: option.split)

lemma canonical_placed_initGame:
  assumes "draws_ok sonnets d" and "canonical_placed sonnets s"
  shows "canonical_placed sonnets (initGame sonnets d now s)"
proof (cases "getRandomSonnet sonnets (pick d)")
  case None
  then have "validSonnets sonnets = []"
    by (simp add: getRandomSonnet_def split: if_splits)
  then have "currentSonnet s = None"
    using assms(2) by (cases "currentSonnet s") (simp_all add: canonical_placed_def)
  then show ?thesis
    using None assms(2) by (simp add: initGame_def canonical_placed_def)
next
  case (Some cs)
  then have "validSonnets sonnets \<noteq> []"
    by (auto simp: getRandomSonnet_def)
  then have r: "pick d < length (validSonnets sonnets)"
    using assms(1) by (simp add: draws_ok_def)
  note cs = getRandomSonnet_Some [OF Some r]
  have draws: "\<forall>i<14. lineDraws d i \<le> i \<and> slotDraws d i \<le> i"
    using assms(1) by (simp add: draws_ok_def list_all_upt)
  have lines: "mset (shuffleArray (lineDraws d) cs) = mset cs"
    using draws cs(2) by (intro shuffleArray_perm) simp
  have idx: "mset (shuffleArray (slotDraws d) [0..<14]) = mset [0..<14]"
    using draws by (intro shuffleArray_perm) simp
  have nonempty: "\<forall>l \<in> set (shuffleArray (lineDraws d) cs). l \<noteq> []"
    using cs(3) mset_eq_setD [OF lines] by simp
  have len: "length (shuffleArray (lineDraws d) cs) = 14"
    using cs(2) mset_eq_length [OF lines] by simp
  note pl = place_lines_perm [OF idx nonempty len]
  have "mset (map Some (shuffleArray (lineDraws d) cs)) = mset (map Some cs)"
    using lines by (metis mset_map)
  then show ?thesis
    using Some cs(1) pl by (simp add: initGame_def canonical_placed_def Let_def)
qed

lemma length_drop_slots:
  "src < length sl \<Longrightarrow> k < length sl \<Longrightarrow> length (drop_slots sl c src k) = length sl"
  by (simp add: drop_slots_def length_set_slot)

lemma length_slots_handlePointerUp:
  assumes "session_ok s" and "hit_ok s target"
  shows "length (slots (handlePointerUp now target s)) = length (slots s)"
proof (cases "isDragging s \<and> truthy (draggedLine s)")
  case False
  then show ?thesis by (auto simp: handlePointerUp_def)
next
  case drag: True
  show ?thesis
  proof (cases target)
    case None
    with drag show ?thesis by (simp add: handlePointerUp_def)
  next
    case (Some k)
    show ?thesis
    proof (cases "draggedSlotIndex s")
      case None
      with drag Some show ?thesis by (simp add: handlePointerUp_def)
    next
      case src: (Some src)
      have "truthy (slot_at (slots s) src)"
        using assms(1) drag src by (simp add: session_ok_def)
      then have "src < length (slots s)"
        by (auto simp: slot_at_def split: if_splits)
      moreover have "k < length (slots s)"
        using assms(2) Some by (simp add: hit_ok_def)
      ultimately show ?thesis
        using drag Some src by (simp add: handlePointerUp_def length_drop_slots)
    qed
  qed
qed

text \<open>
  Every event keeps the invariant, a press on New Sonnet because it comes between drags.
\<close>

lemma step_keeps_invariant:
  assumes "session_ok s" and "canonical_placed sonnets s" and "admissible sonnets s e"
  shows "session_ok (step sonnets s e) \<and> canonical_placed sonnets (step sonnets s e)"
proof (cases "restarts e")
  case True
  then obtain d now slotIndex where e: "e = PointerDown d now slotIndex (Some newSonnet_key)"
    by (auto elim: restarts.elims)
  with assms(3) have ok: "draws_ok sonnets d" "\<not> isDragging s" "slotIndex = None"
    by simp_all
  have st: "step sonnets s e =
      (if \<not> isButtonDisabled newSonnet_key s then initGame sonnets d now s else s)"
    using e ok by (simp add: handlePointerDown_def handleButtonClick_def)
  have "session_ok (initGame sonnets d now s)"
    using ok(2) by (simp add: session_ok_def)
  then show ?thesis
    unfolding st using assms(1,2) canonical_placed_initGame [OF ok(1) assms(2)] by simp
next
  case False
  note keep = step_keeps_lines [OF assms(1) False, of sonnets]
  have "length (slots (step sonnets s e)) = length (slots s)"
  proof (cases e)
    case (PointerDown d now slotIndex hit)
    show ?thesis
    proof (cases hit)
      case None
      with PointerDown show ?thesis
        by (simp add: handlePointerDown_no_button)
    next
      case (Some key)
      with PointerDown False have "key = checkOrder_key"
        by (cases key) simp_all
      with Some PointerDown show ?thesis
        by (simp add: handlePointerDown_check_button)
    qed
  next
    case (PointerMove now slotIndex)
    then show ?thesis by (simp add: handlePointerMove_def)
  next
    case (PointerUp now slotIndex)
    with assms show ?thesis by (simp add: length_slots_handlePointerUp)
  next
    case (AnimationFrame now)
    then show ?thesis by (simp add: animateShake_def)
  next
    case (Resize now)
    then show ?thesis by (simp add: handleResize_def)
  qed
  with keep assms(2) show ?thesis
    by (auto simp: canonical_placed_def split: option.splits)
qed

lemma run_keeps_invariant:
  assumes "session_ok s" and "canonical_placed sonnets s" and "trace_ok sonnets s es"
  shows "session_ok (run sonnets s es) \<and> canonical_placed sonnets (run sonnets s es)"
  using assms
proof (induction es arbitrary: s)
  case Nil
  then show ?case by (simp add: run_def)
next
  case (Cons e es)
  have "session_ok (step sonnets s e) \<and> canonical_placed sonnets (step sonnets s e)"
    using Cons.prems by (intro step_keeps_invariant) simp_all
  then have "session_ok (run sonnets (step sonnets s e) es) \<and>
             canonical_placed sonnets (run sonnets (step sonnets s e) es)"
    using Cons.prems by (intro Cons.IH) simp_all
  then show ?case
    by (simp add: run_def)
qed

lemma start_invariant:
  assumes "draws_ok sonnets d"
  shows "session_ok (start sonnets d now) \<and> canonical_placed sonnets (start sonnets d now)"
proof -
  have "canonical_placed sonnets load_state"
    by (simp add: canonical_placed_def load_state_def placed_replicate_None)
  then have "canonical_placed sonnets (start sonnets d now)"
    unfolding start_def by (rule canonical_placed_initGame [OF assms])
  moreover have "session_ok (start sonnets d now)"
    by (simp add: start_def session_ok_def load_state_def)
  ultimately show ?thesis by simp
qed

text \<open>
  On a board that holds exactly the lines of the canonical sequence, every text is in as
  many slots as it has occurrences in the sequence.
\<close>

lemma canonical_lines_counted:
  assumes "placed sl = mset (map Some cs)"
  shows "count (placed sl) (Some l) = count (mset cs) l"
    and "no_line_twice sl = distinct cs"
proof -
  have "count (mset (map Some cs)) (Some l) = count (mset cs) l"
    by (induction cs) simp_all
  then show "count (placed sl) (Some l) = count (mset cs) l"
    using assms by simp
  have "mset (filter truthy sl) = mset (map Some cs)"
    using assms by (simp add: placed_def)
  then have "distinct (filter truthy sl) = distinct (map Some cs)"
    by (rule mset_eq_imp_distinct_iff)
  then show "no_line_twice sl = distinct cs"
    by (simp add: no_line_twice_def distinct_map)
qed

lemma empty_board_no_line_twice:
  assumes "placed sl = {#}"
  shows "no_line_twice sl"
proof -
  have "mset (filter truthy sl) = {#}"
    using assms by (simp add: placed_def)
  then show ?thesis
    by (simp add: no_line_twice_def)
qed

text \<open>
  C5 as stated fails: a sonnet whose first line comes back as its third is placed with that
  text in two slots.
\<close>

theorem refrain_is_placed_twice:
  "currentSonnet (start [sonnet_text refrain] still_draws 0) = Some refrain \<and>
   slot_at (slots (start [sonnet_text refrain] still_draws 0)) 0 = Some ''A'' \<and>
   slot_at (slots (start [sonnet_text refrain] still_draws 0)) 2 = Some ''A'' \<and>
   \<not> no_line_twice (slots (start [sonnet_text refrain] still_draws 0))"
  by code_simp

text \<open>
  C5 as amended. Take the state \<^verbatim>\<open>initGame\<close> produces when the page is loaded, or any state
  reached from it by events in which New Sonnet is pressed only between drags. The board has
  fourteen slots. With no sonnet loaded it holds no line. With the canonical sequence \<open>cs\<close>
  it holds exactly the lines of \<open>cs\<close>: every text is in as many slots as it has occurrences
  in \<open>cs\<close>. So no text is in two slots if and only if the lines of \<open>cs\<close> are pairwise
  different; a text that \<open>cs\<close> holds twice is in two slots. What the other sonnets of the
  data look like does not matter.
\<close>

theorem no_line_in_two_slots:
  assumes "draws_ok sonnets d"
    and "trace_ok sonnets (start sonnets d now) es"
  shows "canonical_placed sonnets (run sonnets (start sonnets d now) es) \<and>
         (currentSonnet (run sonnets (start sonnets d now) es) = None \<longrightarrow>
            no_line_twice (slots (run sonnets (start sonnets d now) es))) \<and>
         (\<forall>cs. currentSonnet (run sonnets (start sonnets d now) es) = Some cs \<longrightarrow>
            length cs = 14 \<and>
            placed (slots (run sonnets (start sonnets d now) es)) = mset (map Some cs) \<and>
            (\<forall>l. count (placed (slots (run sonnets (start sonnets d now) es))) (Some l)
                   = count (mset cs) l) \<and>
            no_line_twice (slots (run sonnets (start sonnets d now) es)) = distinct cs)"
proof -
  let ?s = "run sonnets (start sonnets d now) es"
  have "session_ok (start sonnets d now)" and "canonical_placed sonnets (start sonnets d now)"
    using start_invariant [OF assms(1)] by simp_all
  then have inv: "canonical_placed sonnets ?s"
    using run_keeps_invariant assms(2) by blast
  have none: "no_line_twice (slots ?s)" if "currentSonnet ?s = None"
    using inv that by (simp add: canonical_placed_def empty_board_no_line_twice)
  have some: "length cs = 14 \<and> placed (slots ?s) = mset (map Some cs) \<and>
              (\<forall>l. count (placed (slots ?s)) (Some l) = count (mset cs) l) \<and>
              no_line_twice (slots ?s) = distinct cs"
    if cs: "currentSonnet ?s = Some cs" for cs
  proof -
    from inv cs have mem: "cs \<in> set (map sonnet_lines (validSonnets sonnets))"
      and pl: "placed (slots ?s) = mset (map Some cs)"
      by (simp_all add: canonical_placed_def)
    from mem have "length cs = 14"
      using sonnet_lines_valid(1) by auto
    then show ?thesis
      using pl canonical_lines_counted [OF pl] by simp
  qed
  show ?thesis
    using inv none some by blast
qed

theorem no_line_in_two_slots_witness:
  "currentSonnet (run [sonnet_text letters, sonnet_text refrain]
     (start [sonnet_text letters, sonnet_text refrain] mixing_draws 0)
     [PointerDown still_draws 10 (Some 0) None, PointerMove 15 (Some 3), PointerUp 20 (Some 5),
      PointerDown still_draws 30 None (Some checkOrder_key)]) = Some letters \<and>
   no_line_twice (slots (run [sonnet_text letters, sonnet_text refrain]
     (start [sonnet_text letters, sonnet_text refrain] mixing_draws 0)
     [PointerDown still_draws 10 (Some 0) None, PointerMove 15 (Some 3), PointerUp 20 (Some 5),
      PointerDown still_draws 30 None (Some checkOrder_key)])) \<and>
   currentSonnet (run [sonnet_text letters, sonnet_text refrain]
     (start [sonnet_text letters, sonnet_text refrain] (mixing_draws\<lparr>pick := 1\<rparr>) 0)
     [PointerDown still_draws 10 (Some 0) None, PointerMove 15 (Some 3), PointerUp 20 (Some 5),
      PointerDown still_draws 30 None (Some checkOrder_key)]) = Some refrain \<and>
   \<not> no_line_twice (slots (run [sonnet_text letters, sonnet_text refrain]
     (start [sonnet_text letters, sonnet_text refrain] (mixing_draws\<lparr>pick := 1\<rparr>) 0)
     [PointerDown still_draws 10 (Some 0) None, PointerMove 15 (Some 3), PointerUp 20 (Some 5),
      PointerDown still_draws 30 None (Some checkOrder_key)])) \<and>
   count (placed (slots (run [sonnet_text letters, sonnet_text refrain]
     (start [sonnet_text letters, sonnet_text refrain] (mixing_draws\<lparr>pick := 1\<rparr>) 0)
     [PointerDown still_draws 10 (Some 0) None, PointerMove 15 (Some 3), PointerUp 20 (Some 5),
      PointerDown still_draws 30 None (Some checkOrder_key)]))) (Some ''A'') = 2"
proof -
  let ?sonnets = "[sonnet_text letters, sonnet_text refrain]"
  let ?es = "[PointerDown still_draws 10 (Some 0) None, PointerMove 15 (Some 3),
              PointerUp 20 (Some 5), PointerDown still_draws 30 None (Some checkOrder_key)]"
  let ?d = "mixing_draws\<lparr>pick := 1\<rparr>"
  have a1: "draws_ok ?sonnets mixing_draws" by code_simp
  have b1: "trace_ok ?sonnets (start ?sonnets mixing_draws 0) ?es" by code_simp
  have c1: "currentSonnet (run ?sonnets (start ?sonnets mixing_draws 0) ?es) = Some letters"
    by code_simp
  have d1: "distinct letters" by code_simp
  have a2: "draws_ok ?sonnets ?d" by code_simp
  have b2: "trace_ok ?sonnets (start ?sonnets ?d 0) ?es" by code_simp
  have c2: "currentSonnet (run ?sonnets (start ?sonnets ?d 0) ?es) = Some refrain"
    by code_simp
  have d2: "\<not> distinct refrain" by code_simp
  have e2: "count (mset refrain) ''A'' = 2" by (simp add: refrain_def letters_def)
  have one: "no_line_twice (slots (run ?sonnets (start ?sonnets mixing_draws 0) ?es))"
    using no_line_in_two_slots [OF a1 b1] c1 d1 by blast
  have two: "\<not> no_line_twice (slots (run ?sonnets (start ?sonnets ?d 0) ?es))"
    using no_line_in_two_slots [OF a2 b2] c2 d2 by blast
  have "\<forall>l. count (placed (slots (run ?sonnets (start ?sonnets ?d 0) ?es))) (Some l)
             = count (mset refrain) l"
    using no_line_in_two_slots [OF a2 b2] c2 by blast
  then have "count (placed (slots (run ?sonnets (start ?sonnets ?d 0) ?es))) (Some ''A'')
             = count (mset refrain) ''A''"
    by (rule spec)
  then have three:
    "count (placed (slots (run ?sonnets (start ?sonnets ?d 0) ?es))) (Some ''A'') = 2"
    using e2 by simp
  show ?thesis
    using c1 one c2 two three by simp
qed

text \<open>
  In the states of that theorem a drag, if any, carries the line of its source slot: they
  are states in which drops conserve the lines.
\<close>

lemma reached_states_have_sound_drag:
  assumes "draws_ok sonnets d" and "trace_ok sonnets (start sonnets d now) es"
  shows "session_ok (run sonnets (start sonnets d now) es)"
  using start_invariant [OF assms(1)] run_keeps_invariant assms(2) by blast

section \<open>A drop that changes a slot\<close>

text \<open>
  C6. If a drop changes what slot \<open>i\<close> holds, then afterwards \<open>i\<close> is in neither the
  checked nor the incorrect set and the pass flag is false, whatever they were before.
\<close>

theorem changed_slot_is_unmarked:
  assumes "slot_at (slots (handlePointerUp now target s)) i \<noteq> slot_at (slots s) i"
  shows "i \<notin> incorrectSlots (handlePointerUp now target s) \<and>
         i \<notin> checkedSlots (handlePointerUp now target s) \<and>
         \<not> hasCheckedAndPassed (handlePointerUp now target s)"
proof (cases "isDragging s \<and> truthy (draggedLine s)")
  case False
  with assms show ?thesis by (simp add: handlePointerUp_def)
next
  case drag: True
  show ?thesis
  proof (cases target)
    case None
    with assms drag show ?thesis by (simp add: handlePointerUp_def)
  next
    case (Some k)
    show ?thesis
    proof (cases "draggedSlotIndex s")
      case None
      with assms drag Some show ?thesis by (simp add: handlePointerUp_def)
    next
      case src: (Some src)
      show ?thesis
      proof (cases "src = k")
        case True
        with assms drag Some src show ?thesis by (simp add: handlePointerUp_def)
      next
        case False
        have sl: "slots (handlePointerUp now target s) = drop_slots (slots s) (draggedLine s) src k"
          using drag Some src False by (simp add: handlePointerUp_def)
        have "i = k \<or> i = src"
          using assms unfolding sl slot_at_drop_slots by (auto split: if_splits)
        then show ?thesis
          using drag Some src False by (auto simp: handlePointerUp_def)
      qed
    qed
  qed
qed

theorem changed_slot_is_unmarked_witness:
  "slot_at (slots (handlePointerUp 9 (Some 5)
      (handlePointerDown [] still_draws 0 (Some 0) None marked_board))) 0 = Some ''F'' \<and>
   slot_at (slots (handlePointerDown [] still_draws 0 (Some 0) None marked_board)) 0 = Some ''A'' \<and>
   0 \<in> checkedSlots (handlePointerDown [] still_draws 0 (Some 0) None marked_board) \<and>
   hasCheckedAndPassed (handlePointerDown [] still_draws 0 (Some 0) None marked_board) \<and>
   0 \<notin> incorrectSlots (handlePointerUp 9 (Some 5)
      (handlePointerDown [] still_draws 0 (Some 0) None marked_board)) \<and>
   0 \<notin> checkedSlots (handlePointerUp 9 (Some 5)
      (handlePointerDown [] still_draws 0 (Some 0) None marked_board)) \<and>
   \<not> hasCheckedAndPassed (handlePointerUp 9 (Some 5)
      (handlePointerDown [] still_draws 0 (Some 0) None marked_board))"
proof -
  let ?s = "handlePointerDown [] still_draws 0 (Some 0) None marked_board"
  have s: "?s = marked_board\<lparr>draggedLine := Some ''A'', draggedSlotIndex := Some 0,
                              isDragging := True\<rparr>"
    by (simp add: handlePointerDown_def marked_board_def board_def letters_def slot_at_def)
  have before: "slot_at (slots ?s) 0 = Some ''A''"
    unfolding s by (simp add: marked_board_def board_def letters_def slot_at_def)
  have after: "slot_at (slots (handlePointerUp 9 (Some 5) ?s)) 0 = Some ''F''"
    by code_simp
  have marks: "0 \<in> checkedSlots ?s \<and> hasCheckedAndPassed ?s"
    unfolding s by (simp add: marked_board_def)
  have changed: "slot_at (slots (handlePointerUp 9 (Some 5) ?s)) 0 \<noteq> slot_at (slots ?s) 0"
    unfolding before after by simp
  show ?thesis
    using changed_slot_is_unmarked [OF changed] before after marks by blast
qed

text \<open>
  The first listing has no pass flag; for the two sets of marks the same holds of its
  \<^verbatim>\<open>handlePointerUp\<close>, which also writes to a slot on a drop outside and on a drop back.
\<close>

lemma changed_slot_is_unmarked_v1:
  assumes "slot_at (slots (handlePointerUp_v1 now target s)) i \<noteq> slot_at (slots s) i"
  shows "i \<notin> incorrectSlots (handlePointerUp_v1 now target s) \<and>
         i \<notin> checkedSlots (handlePointerUp_v1 now target s)"
  using assms
  by (auto simp: handlePointerUp_v1_def slot_at_set_slot Let_def split: option.splits if_splits)

section \<open>Completeness and the flagged set\<close>

lemma slotsToShake_empty:
  "slotsToShake cs sl = {} \<longleftrightarrow> (\<forall>i<length sl. \<not> wrong cs sl i)"
  by (auto simp: slotsToShake_def filter_empty_conv)

text \<open>
  The set \<open>slotsToShake cs (slots s)\<close> is the one \<^verbatim>\<open>checkOrder\<close> computes: the function stores
  it in \<^verbatim>\<open>shakingSlots\<close> when it is not empty, and sets the pass flag exactly when it is.
\<close>

lemma checkOrder_flags:
  assumes "currentSonnet s = Some cs"
  shows "hasCheckedAndPassed (checkOrder now s) = (slotsToShake cs (slots s) = {})"
    and "slotsToShake cs (slots s) \<noteq> {} \<Longrightarrow>
         shakingSlots (checkOrder now s) = slotsToShake cs (slots s)"
    and "checkOrderCount (checkOrder now s) = checkOrderCount s + 1"
  using assms by (simp_all add: checkOrder_def Let_def render_during_shake)

text \<open>
  C7. In a puzzle state with canonical sequence \<open>cs\<close>, the board is complete (in the words
  of the specification, and as \<^verbatim>\<open>isOrderCorrect\<close> computes it) if and only if the set of
  slots that \<^verbatim>\<open>checkOrder\<close> would flag, the empty ones and the wrong ones, is empty.
\<close>

theorem complete_iff_nothing_flagged:
  assumes "puzzle_state s" and "currentSonnet s = Some cs"
  shows "isOrderCorrect s = (slotsToShake cs (slots s) = {}) \<and>
         isComplete_spec s = (slotsToShake cs (slots s) = {})"
proof -
  from assms have len: "length cs = 14" "length (slots s) = 14"
    and lines: "\<And>i. i < 14 \<Longrightarrow> cs ! i \<noteq> []"
    by (auto simp: puzzle_state_def list_all_length)
  have "isComplete_spec s = (\<forall>i<14. slot_at (slots s) i = Some (cs ! i))"
    using assms(2) by (auto simp: isComplete_spec_def list_all_upt)
  also have "\<dots> = (\<forall>i<14. \<not> wrong cs (slots s) i)"
    using len lines by (auto simp: wrong_def Let_def)
  also have "\<dots> = (slotsToShake cs (slots s) = {})"
    using len by (simp add: slotsToShake_empty)
  finally have "isComplete_spec s = (slotsToShake cs (slots s) = {})" .
  then show ?thesis
    using isOrderCorrect_is_isComplete [OF assms(1)] by simp
qed

theorem complete_iff_nothing_flagged_witness:
  "puzzle_state (board letters ((map Some letters)[3 := None, 4 := Some ''F''])) \<and>
   \<not> isOrderCorrect (board letters ((map Some letters)[3 := None, 4 := Some ''F''])) \<and>
   slotsToShake letters ((map Some letters)[3 := None, 4 := Some ''F'']) = {3, 4} \<and>
   puzzle_state (board letters (map Some letters)) \<and>
   isOrderCorrect (board letters (map Some letters)) \<and>
   slotsToShake letters (map Some letters) = {}"
proof -
  let ?b = "board letters ((map Some letters)[3 := None, 4 := Some ''F''])"
  let ?c = "board letters (map Some letters)"
  have a: "puzzle_state ?b" by code_simp
  have b: "currentSonnet ?b = Some letters" by (simp add: board_def)
  have c: "slotsToShake letters (slots ?b) = {3, 4}" by code_simp
  have d: "slots ?b = (map Some letters)[3 := None, 4 := Some ''F'']" by (simp add: board_def)
  have e: "puzzle_state ?c" by code_simp
  have f: "currentSonnet ?c = Some letters" by (simp add: board_def)
  have g: "slotsToShake letters (slots ?c) = {}" by code_simp
  have h: "slots ?c = map Some letters" by (simp add: board_def)
  have "\<not> isOrderCorrect ?b"
    using complete_iff_nothing_flagged [OF a b] c by simp
  moreover have "isOrderCorrect ?c"
    using complete_iff_nothing_flagged [OF e f] g by simp
  ultimately show ?thesis
    using a c d e g h by simp
qed

text \<open>
  The hypothesis that no canonical line is empty is needed, and \<^verbatim>\<open>getRandomSonnet\<close> provides
  it: with an empty string as a canonical line and in the slot, \<^verbatim>\<open>isOrderCorrect\<close> holds
  while \<^verbatim>\<open>checkOrder\<close> flags the slot as empty.
\<close>

lemma empty_canonical_line_splits_the_two:
  "isOrderCorrect (board (letters[0 := []]) (map Some (letters[0 := []]))) \<and>
   slotsToShake (letters[0 := []]) (map Some (letters[0 := []])) = {0}"
  by code_simp

section \<open>The shake timer\<close>

lemma getShakeOffset_idle:
  "\<not> timer_active s \<Longrightarrow> getShakeOffset now s = (0, s)"
  by (simp add: getShakeOffset_def getShakeOffset_value_def getShakeOffset_state_def
      timer_active_def split: option.splits)

lemma offsetFor_idle:
  "\<not> timer_active s \<Longrightarrow> offsetFor i now s = (0, s)"
  by (simp add: offsetFor_def getShakeOffset_idle)

text \<open>
  C8. Let a shake be running since \<open>t\<close> and let \<open>getShakeOffset\<close> be asked at \<open>now\<close>, not
  before \<open>t\<close>. From 500 ms on the answer is 0, the shaking set, the start time and the frame
  request are cleared, and every later question, for any slot and at any time, is answered
  by 0 and changes nothing. Before 500 ms nothing is assigned, the offset of a slot in the
  shaking set is \<open>sin(elapsed \<cdot> 20 \<cdot> \<pi> / 1000) \<cdot> 10 \<cdot> (1 \<minus> elapsed/500)\<close>; the offset of a slot
  that is not in the shaking set is 0 at any time; and with no shake running the offset of
  every slot is 0.
\<close>

theorem shake_offset:
  assumes "shakeStartTime s = Some t" and "t \<noteq> 0" and "0 \<le> now - t"
  shows "(500 \<le> now - t \<longrightarrow>
            getShakeOffset now s =
              (0, s\<lparr>shakingSlots := {}, shakeStartTime := None, shakeAnimationFrame := False\<rparr>) \<and>
            (\<forall>later j. getShakeOffset later (snd (getShakeOffset now s))
                          = (0, snd (getShakeOffset now s)) \<and>
                        offsetFor j later (snd (getShakeOffset now s))
                          = (0, snd (getShakeOffset now s)))) \<and>
         (now - t < 500 \<longrightarrow>
            getShakeOffset now s = (shake_formula (now - t), s) \<and>
            (i \<in> shakingSlots s \<longrightarrow> offsetFor i now s = (shake_formula (now - t), s))) \<and>
         (i \<notin> shakingSlots s \<longrightarrow> offsetFor i now s = (0, s)) \<and>
         (\<forall>idle. \<not> timer_active idle \<longrightarrow> offsetFor i now idle = (0, idle))"
proof -
  let ?c = "s\<lparr>shakingSlots := {}, shakeStartTime := None, shakeAnimationFrame := False\<rparr>"
  have idle: "\<not> timer_active ?c"
    by (simp add: timer_active_def)
  have late: "getShakeOffset now s = (0, ?c)" if "500 \<le> now - t"
    using assms that
    by (simp add: getShakeOffset_def getShakeOffset_value_def getShakeOffset_state_def)
  have early: "getShakeOffset now s = (shake_formula (now - t), s)" if "now - t < 500"
    using assms that
    by (simp add: getShakeOffset_def getShakeOffset_value_def getShakeOffset_state_def
        shake_formula_def Let_def)
  show ?thesis
    using late early getShakeOffset_idle [OF idle] offsetFor_idle [OF idle] offsetFor_idle
    by (simp add: offsetFor_def)
qed

theorem shake_offset_witness:
  "shakeStartTime shaking_board = Some 1000 \<and> (1000::int) \<noteq> 0 \<and> (0::int) \<le> 1025 - 1000 \<and>
   3 \<in> shakingSlots shaking_board \<and>
   offsetFor 3 1025 shaking_board = (19 / 2, shaking_board) \<and>
   (0::int) \<le> 1600 - 1000 \<and>
   offsetFor 3 1600 shaking_board =
     (0, shaking_board\<lparr>shakingSlots := {}, shakeStartTime := None, shakeAnimationFrame := False\<rparr>)"
proof -
  have a: "shakeStartTime shaking_board = Some 1000"
    by (simp add: shaking_board_def)
  have b: "3 \<in> shakingSlots shaking_board"
    by (simp add: shaking_board_def)
  have f: "shake_formula 25 = 19 / 2"
    by (simp add: shake_formula_def)
  have "offsetFor 3 1025 shaking_board = (shake_formula (1025 - 1000), shaking_board)"
    using shake_offset [OF a, of 1025 3] b by simp
  then have c: "offsetFor 3 1025 shaking_board = (19 / 2, shaking_board)"
    using f by simp
  have "getShakeOffset 1600 shaking_board =
     (0, shaking_board\<lparr>shakingSlots := {}, shakeStartTime := None, shakeAnimationFrame := False\<rparr>)"
    using shake_offset [OF a, of 1600 3] by simp
  then have d: "offsetFor 3 1600 shaking_board =
     (0, shaking_board\<lparr>shakingSlots := {}, shakeStartTime := None, shakeAnimationFrame := False\<rparr>)"
    using b by (simp add: offsetFor_def)
  show ?thesis
    using a b c d by simp
qed

section \<open>A second pointer-down during a drag\<close>

text \<open>
  C9 as stated fails: with the line of slot 0 being dragged, a pointer-down on slot 1 makes
  slot 1 the source and its line the carried line.
\<close>

theorem second_pickUp_replaces_session:
  "session_from (handlePointerDown [] still_draws 0 (Some 0) None (board letters (map Some letters))) 0 \<and>
   draggedSlotIndex (handlePointerDown [] still_draws 0 (Some 0) None (board letters (map Some letters)))
     = Some 0 \<and>
   draggedLine (handlePointerDown [] still_draws 0 (Some 0) None (board letters (map Some letters)))
     = Some ''A'' \<and>
   draggedSlotIndex
     (handlePointerDown [] still_draws 1 (Some 1) None
       (handlePointerDown [] still_draws 0 (Some 0) None (board letters (map Some letters))))
     = Some 1 \<and>
   draggedLine
     (handlePointerDown [] still_draws 1 (Some 1) None
       (handlePointerDown [] still_draws 0 (Some 0) None (board letters (map Some letters))))
     = Some ''B''"
  by code_simp

text \<open>
  Neither button action assigns to a drag variable.
\<close>

lemma handleButtonClick_keeps_drag:
  "isDragging (handleButtonClick sonnets d now key s) = isDragging s"
  "draggedSlotIndex (handleButtonClick sonnets d now key s) = draggedSlotIndex s"
  "draggedLine (handleButtonClick sonnets d now key s) = draggedLine s"
  "hoveredSlotIndex (handleButtonClick sonnets d now key s) = hoveredSlotIndex s"
  by (cases key; simp add: handleButtonClick_def checkOrder_def initGame_def Let_def
      split: option.split)+

lemma handlePointerDown_off_slot_keeps_drag:
  assumes "slotIndex = None \<or> (\<exists>i. slotIndex = Some i \<and> \<not> truthy (slot_at (slots s) i))"
  shows "isDragging (handlePointerDown sonnets d now slotIndex hit s) = isDragging s"
    and "draggedSlotIndex (handlePointerDown sonnets d now slotIndex hit s) = draggedSlotIndex s"
    and "draggedLine (handlePointerDown sonnets d now slotIndex hit s) = draggedLine s"
    and "hoveredSlotIndex (handlePointerDown sonnets d now slotIndex hit s) = hoveredSlotIndex s"
  using assms
  by (auto simp: handlePointerDown_def handleButtonClick_keeps_drag Let_def split: option.split)

lemma handlePointerDown_on_slot_restarts_drag:
  assumes "truthy (slot_at (slots s) i)"
  shows "isDragging (handlePointerDown sonnets d now (Some i) hit s)"
    and "draggedSlotIndex (handlePointerDown sonnets d now (Some i) hit s) = Some i"
    and "draggedLine (handlePointerDown sonnets d now (Some i) hit s) = slot_at (slots s) i"
  using assms
  by (auto simp: handlePointerDown_def handleButtonClick_keeps_drag Let_def split: option.split)

text \<open>
  C9 as amended. While a drag is in progress, a pointer-down on a filled slot makes that
  slot the source and its line the carried line (the last press wins); when the press is on
  no button the slots are as before and the drag carries the line of its new source slot. A
  pointer-down on an empty slot or on no slot leaves the drag as it is, in progress with the
  same source slot, the same carried line and the same hovered slot, also when the press is
  on a button and the button's action runs; when it is on no button nothing changes at all.
  The drag variables exist once, so there is never a second session.
\<close>

theorem pickUp_during_drag:
  assumes "isDragging s"
  shows "(truthy (slot_at (slots s) i) \<longrightarrow>
            session_from (handlePointerDown sonnets d now (Some i) None s) i \<and>
            slots (handlePointerDown sonnets d now (Some i) None s) = slots s \<and>
            (\<forall>hit. isDragging (handlePointerDown sonnets d now (Some i) hit s) \<and>
                   draggedSlotIndex (handlePointerDown sonnets d now (Some i) hit s) = Some i \<and>
                   draggedLine (handlePointerDown sonnets d now (Some i) hit s)
                     = slot_at (slots s) i)) \<and>
         (\<not> truthy (slot_at (slots s) i) \<longrightarrow>
            handlePointerDown sonnets d now (Some i) None s = s \<and>
            (\<forall>hit. isDragging (handlePointerDown sonnets d now (Some i) hit s) \<and>
                   draggedSlotIndex (handlePointerDown sonnets d now (Some i) hit s)
                     = draggedSlotIndex s \<and>
                   draggedLine (handlePointerDown sonnets d now (Some i) hit s)
                     = draggedLine s \<and>
                   hoveredSlotIndex (handlePointerDown sonnets d now (Some i) hit s)
                     = hoveredSlotIndex s)) \<and>
         handlePointerDown sonnets d now None None s = s \<and>
         (\<forall>hit. isDragging (handlePointerDown sonnets d now None hit s) \<and>
                draggedSlotIndex (handlePointerDown sonnets d now None hit s)
                  = draggedSlotIndex s \<and>
                draggedLine (handlePointerDown sonnets d now None hit s) = draggedLine s \<and>
                hoveredSlotIndex (handlePointerDown sonnets d now None hit s)
                  = hoveredSlotIndex s)"
proof -
  have filled: "session_from (handlePointerDown sonnets d now (Some i) None s) i \<and>
      slots (handlePointerDown sonnets d now (Some i) None s) = slots s"
    if "truthy (slot_at (slots s) i)"
    using that by (simp add: handlePointerDown_def session_from_def)
  have empty: "handlePointerDown sonnets d now (Some i) None s = s"
    if "\<not> truthy (slot_at (slots s) i)"
    using that by (simp add: handlePointerDown_def)
  have nowhere: "handlePointerDown sonnets d now None None s = s"
    by (simp add: handlePointerDown_def)
  show ?thesis
    using assms filled empty nowhere
      handlePointerDown_on_slot_restarts_drag [of s i sonnets d now]
      handlePointerDown_off_slot_keeps_drag [of "Some i" s sonnets d now]
      handlePointerDown_off_slot_keeps_drag [of None s sonnets d now]
    by simp
qed

theorem pickUp_during_drag_witness:
  "isDragging (handlePointerDown [] still_draws 0 (Some 0) None (board letters (map Some letters))) \<and>
   truthy (slot_at (slots (handlePointerDown [] still_draws 0 (Some 0) None
      (board letters (map Some letters)))) 1) \<and>
   session_from
     (handlePointerDown [] still_draws 1 (Some 1) None
       (handlePointerDown [] still_draws 0 (Some 0) None (board letters (map Some letters)))) 1 \<and>
   draggedSlotIndex
     (handlePointerDown [] still_draws 1 None (Some checkOrder_key)
       (handlePointerDown [] still_draws 0 (Some 0) None (board letters (map Some letters))))
     = Some 0 \<and>
   checkOrderCount
     (handlePointerDown [] still_draws 1 None (Some checkOrder_key)
       (handlePointerDown [] still_draws 0 (Some 0) None (board letters (map Some letters))))
     = 1"
proof -
  let ?s = "handlePointerDown [] still_draws 0 (Some 0) None (board letters (map Some letters))"
  have a: "isDragging ?s" by code_simp
  have b: "truthy (slot_at (slots ?s) 1)" by code_simp
  have c: "draggedSlotIndex ?s = Some 0" by code_simp
  have e: "checkOrderCount (handlePointerDown [] still_draws 1 None (Some checkOrder_key) ?s) = 1"
    by code_simp
  note t = pickUp_during_drag [OF a, of 1 "[]" still_draws 1]
  have f: "session_from (handlePointerDown [] still_draws 1 (Some 1) None ?s) 1"
    using t b by blast
  have "draggedSlotIndex (handlePointerDown [] still_draws 1 None (Some checkOrder_key) ?s)
          = draggedSlotIndex ?s"
    using t by blast
  then have g: "draggedSlotIndex (handlePointerDown [] still_draws 1 None (Some checkOrder_key) ?s)
          = Some 0"
    using c by simp
  show ?thesis
    using a b f g e by blast
qed

section \<open>Marks are on filled slots\<close>

lemma annotations_ok_render [simp]: "annotations_ok (render now s) = annotations_ok s"
  by (simp add: annotations_ok_def)

lemma annotations_ok_initGame:
  "annotations_ok s \<Longrightarrow> annotations_ok (initGame sonnets d now s)"
  by (simp add: initGame_def annotations_ok_def Let_def split: option.split)

lemma annotations_ok_checkOrder:
  "annotations_ok s \<Longrightarrow> annotations_ok (checkOrder now s)"
  by (auto simp: checkOrder_def annotations_ok_def Let_def split: option.split)

lemma annotations_ok_drag_fields:
  "annotations_ok (s\<lparr>draggedLine := l, draggedSlotIndex := j, isDragging := b\<rparr>) = annotations_ok s"
  by (simp add: annotations_ok_def)

lemma annotations_ok_handlePointerDown:
  assumes "annotations_ok s"
  shows "annotations_ok (handlePointerDown sonnets d now slotIndex hit s)"
proof -
  let ?s1 = "case slotIndex of
               None \<Rightarrow> s
             | Some i \<Rightarrow>
                 if truthy (slot_at (slots s) i) then
                   s\<lparr>draggedLine := slot_at (slots s) i, draggedSlotIndex := Some i,
                     isDragging := True\<rparr>
                 else s"
  have s1: "annotations_ok ?s1"
    using assms by (simp add: annotations_ok_drag_fields split: option.split)
  show ?thesis
  proof (cases hit)
    case None
    with s1 show ?thesis by (simp add: handlePointerDown_def Let_def)
  next
    case (Some key)
    show ?thesis
    proof (cases key)
      case checkOrder_key
      with Some s1 annotations_ok_checkOrder [OF s1] show ?thesis
        by (simp add: handlePointerDown_def handleButtonClick_def Let_def)
    next
      case newSonnet_key
      with Some s1 annotations_ok_initGame [OF s1] show ?thesis
        by (simp add: handlePointerDown_def handleButtonClick_def Let_def)
    qed
  qed
qed

lemma annotations_ok_handlePointerMove:
  "annotations_ok s \<Longrightarrow> annotations_ok (handlePointerMove now slotIndex s)"
  by (simp add: handlePointerMove_def annotations_ok_def)

lemma annotations_ok_handlePointerUp:
  assumes "annotations_ok s"
  shows "annotations_ok (handlePointerUp now slotIndex s)"
proof -
  have "truthy (slot_at (slots (handlePointerUp now slotIndex s)) i)"
    if i: "i \<in> incorrectSlots (handlePointerUp now slotIndex s) \<union>
               checkedSlots (handlePointerUp now slotIndex s)" for i
  proof -
    have sub: "i \<in> incorrectSlots s \<union> checkedSlots s"
      using i by (auto simp: handlePointerUp_def split: if_splits option.splits)
    then have old: "truthy (slot_at (slots s) i)"
      using assms by (simp add: annotations_ok_def)
    have "slot_at (slots (handlePointerUp now slotIndex s)) i = slot_at (slots s) i"
    proof (rule ccontr)
      assume "slot_at (slots (handlePointerUp now slotIndex s)) i \<noteq> slot_at (slots s) i"
      then have "slots (handlePointerUp now slotIndex s) \<noteq> slots s"
        by auto
      then obtain k src where
        "slots (handlePointerUp now slotIndex s) = drop_slots (slots s) (draggedLine s) src k"
        "i \<notin> incorrectSlots s - {k} - {src} \<or> i \<in> incorrectSlots s - {k} - {src}"
        "incorrectSlots (handlePointerUp now slotIndex s) = incorrectSlots s - {k} - {src}"
        "checkedSlots (handlePointerUp now slotIndex s) = checkedSlots s - {k} - {src}"
        by (auto simp: handlePointerUp_def split: if_splits option.splits)
      then show False
        using i \<open>slot_at (slots (handlePointerUp now slotIndex s)) i \<noteq> slot_at (slots s) i\<close>
        by (auto simp: slot_at_drop_slots split: if_splits)
    qed
    with old show ?thesis by simp
  qed
  then show ?thesis
    by (simp add: annotations_ok_def)
qed

lemma annotations_ok_step:
  "annotations_ok s \<Longrightarrow> annotations_ok (step sonnets s e)"
proof (cases e)
  case (PointerDown d now slotIndex hit)
  assume "annotations_ok s"
  with PointerDown show ?thesis by (simp add: annotations_ok_handlePointerDown)
next
  case (PointerMove now slotIndex)
  assume "annotations_ok s"
  with PointerMove show ?thesis by (simp add: annotations_ok_handlePointerMove)
next
  case (PointerUp now slotIndex)
  assume "annotations_ok s"
  with PointerUp show ?thesis by (simp add: annotations_ok_handlePointerUp)
next
  case (AnimationFrame now)
  assume "annotations_ok s"
  with AnimationFrame show ?thesis by (simp add: animateShake_def annotations_ok_def)
next
  case (Resize now)
  assume "annotations_ok s"
  with Resize show ?thesis by (simp add: handleResize_def)
qed

lemma annotations_ok_run:
  "annotations_ok s \<Longrightarrow> annotations_ok (run sonnets s es)"
  unfolding run_def
  by (induction es arbitrary: s) (simp_all add: annotations_ok_step)

lemma annotations_ok_load: "annotations_ok load_state"
  by (simp add: annotations_ok_def load_state_def)

text \<open>
  C10. After the call of \<^verbatim>\<open>initGame\<close> that ends the listing and any sequence of events, in
  any order and with any arguments, every index in the checked set or in the incorrect set is
  the index of a slot that holds a line.
\<close>

theorem marks_only_on_filled_slots:
  "annotations_ok (run sonnets (start sonnets d now) es)"
  unfolding start_def
  by (intro annotations_ok_run annotations_ok_initGame annotations_ok_load)

theorem marks_only_on_filled_slots_witness:
  "checkedSlots (run [sonnet_text letters] (start [sonnet_text letters] still_draws 0)
      [PointerDown still_draws 10 (Some 0) None, PointerUp 20 (Some 1),
       PointerDown still_draws 30 None (Some checkOrder_key)]) = {0..<14} \<and>
   incorrectSlots (run [sonnet_text letters] (start [sonnet_text letters] still_draws 0)
      [PointerDown still_draws 10 (Some 0) None, PointerUp 20 (Some 1),
       PointerDown still_draws 30 None (Some checkOrder_key)]) = {0, 1} \<and>
   truthy (slot_at (slots
      (run [sonnet_text letters] (start [sonnet_text letters] still_draws 0)
      [PointerDown still_draws 10 (Some 0) None, PointerUp 20 (Some 1),
       PointerDown still_draws 30 None (Some checkOrder_key)])) 1)"
proof -
  let ?s = "run [sonnet_text letters] (start [sonnet_text letters] still_draws 0)
      [PointerDown still_draws 10 (Some 0) None, PointerUp 20 (Some 1),
       PointerDown still_draws 30 None (Some checkOrder_key)]"
  have a: "checkedSlots ?s = {0..<14}" by code_simp
  have b: "incorrectSlots ?s = {0, 1}" by code_simp
  have "\<forall>i \<in> incorrectSlots ?s \<union> checkedSlots ?s. truthy (slot_at (slots ?s) i)"
    using marks_only_on_filled_slots
      [of "[sonnet_text letters]" still_draws 0
          "[PointerDown still_draws 10 (Some 0) None, PointerUp 20 (Some 1),
            PointerDown still_draws 30 None (Some checkOrder_key)]"]
    unfolding annotations_ok_def .
  then show ?thesis
    unfolding a b by auto
qed

text \<open>\<^verbatim>\<open>handlePointerUp\<close> of the first listing keeps the marks on filled slots as well.\<close>

lemma annotations_ok_handlePointerUp_v1:
  assumes "annotations_ok s"
  shows "annotations_ok (handlePointerUp_v1 now target s)"
  using assms
  by (auto simp: handlePointerUp_v1_def annotations_ok_def slot_at_set_slot Let_def
      split: option.splits if_splits)

end
